theory Spec2Isabelle
  imports Main
begin

section \<open>The CSV codec of csv_parser.py\<close>

text \<open>
  A shallow embedding of the two classes of \<^verbatim>\<open>src/csv_parser.py\<close>:
  \<^verbatim>\<open>CustomCsvReader\<close>, whose \<^verbatim>\<open>__next__\<close> is a character-by-character
  state machine over an internal buffer, and \<^verbatim>\<open>CustomCsvWriter\<close>, which quotes
  and joins fields. Python strings are modelled as \<^typ>\<open>string\<close>; nothing in
  the code depends on what a character is beyond equality with the delimiter, the quote
  character, CR and LF. The delimiter and the quote character are single characters, the
  only values the specification allows for them.
\<close>

subsection \<open>Characters and the input source\<close>

definition LF :: char where
  "LF = CHR 0x0A"

definition CR :: char where
  "CR = CHR 0x0D"

text \<open>
  The reader only ever calls \<^verbatim>\<open>fileobj.read(4096)\<close>. A file object is therefore
  modelled by the results its successive \<^verbatim>\<open>read(4096)\<close> calls are still going to
  deliver; once the list is used up every further call delivers the empty string.
\<close>

type_synonym fileobj = "string list"

fun fileobj_read :: "fileobj \<Rightarrow> string \<times> fileobj" where
  "fileobj_read [] = ([], [])"
| "fileobj_read (chunk # rest) = (chunk, rest)"

text \<open>
  \<^verbatim>\<open>io.StringIO(text)\<close>, the source used by \<^verbatim>\<open>benchmark.py\<close>: a call
  \<^verbatim>\<open>read(n)\<close> delivers the next \<open>n\<close> characters, or what is left of the text.
\<close>

function chunks_of :: "nat \<Rightarrow> string \<Rightarrow> string list" where
  "chunks_of n text =
     (if n = 0 \<or> text = [] then [] else take n text # chunks_of n (drop n text))"
  by pat_completeness auto
termination
  by (relation "measure (\<lambda>(n, text). length text)") auto

definition StringIO :: "string \<Rightarrow> fileobj" where
  "StringIO text = chunks_of 4096 text"

subsection \<open>The reader\<close>

record csv_config =
  delimiter :: char
  quotechar :: char

record CustomCsvReader = csv_config +
  fileobj :: fileobj
  buffer :: string
  eof :: bool

text \<open>\<^verbatim>\<open>CustomCsvReader.__init__\<close>, and the same with the default parameters.\<close>

definition CustomCsvReader_init :: "fileobj \<Rightarrow> char \<Rightarrow> char \<Rightarrow> CustomCsvReader" where
  "CustomCsvReader_init f d q =
     \<lparr>delimiter = d, quotechar = q, fileobj = f, buffer = [], eof = False\<rparr>"

definition CustomCsvReader_default :: "fileobj \<Rightarrow> CustomCsvReader" where
  "CustomCsvReader_default f = CustomCsvReader_init f (CHR '','') (CHR 0x22)"

text \<open>
  What a call can raise: \<^verbatim>\<open>StopIteration\<close> is raised explicitly, and indexing
  the buffer with \<^verbatim>\<open>self.buffer[0]\<close> raises \<^verbatim>\<open>IndexError\<close> on an empty
  buffer.
\<close>

datatype error = StopIteration | IndexError

text \<open>
  One pass through the body of \<^verbatim>\<open>while True\<close> either leaves the call (a
  \<^verbatim>\<open>return\<close> or a \<^verbatim>\<open>raise\<close>) or goes round again with new values of the
  local variables \<^verbatim>\<open>row\<close>, \<^verbatim>\<open>current_field\<close> and \<^verbatim>\<open>in_quotes\<close>.
\<close>

datatype iteration =
    Leave "error + string list" CustomCsvReader
  | Again CustomCsvReader "string list" string bool

text \<open>Lines 59 to 85: take one character from the buffer and classify it.\<close>

definition consume :: "CustomCsvReader \<Rightarrow> string list \<Rightarrow> string \<Rightarrow> bool \<Rightarrow> iteration" where
  "consume self row current_field in_quotes =
     (case buffer self of
        [] \<Rightarrow> Leave (Inl IndexError) self
      | char # rest \<Rightarrow>
          (let self = self\<lparr>buffer := rest\<rparr> in
           if char = quotechar self then
             (if in_quotes then
                (if buffer self \<noteq> [] \<and> hd (buffer self) = quotechar self
                 then Again (self\<lparr>buffer := tl (buffer self)\<rparr>) row
                        (current_field @ [quotechar self]) in_quotes
                 else Again self row current_field False)
              else Again self row current_field True)
           else if char = delimiter self \<and> \<not> in_quotes then
             Again self (row @ [current_field]) [] in_quotes
           else if (char = LF \<or> char = CR) \<and> \<not> in_quotes then
             Leave (Inr (row @ [current_field]))
               (if char = CR \<and> buffer self \<noteq> [] \<and> hd (buffer self) = LF
                then self\<lparr>buffer := tl (buffer self)\<rparr> else self)
           else Again self row (current_field @ [char]) in_quotes))"

text \<open>Lines 47 to 85: the whole loop body, with the refill of an empty buffer first.\<close>

definition loop_body :: "CustomCsvReader \<Rightarrow> string list \<Rightarrow> string \<Rightarrow> bool \<Rightarrow> iteration" where
  "loop_body self row current_field in_quotes =
     (if buffer self = [] then
        (case fileobj_read (fileobj self) of (chunk, f) \<Rightarrow>
           (let self = self\<lparr>fileobj := f\<rparr> in
            if chunk = [] then
              (let self = self\<lparr>eof := True\<rparr>;
                   row = (if current_field \<noteq> [] \<or> in_quotes
                          then row @ [current_field] else row)
               in if row \<noteq> [] then Leave (Inr row) self
                  else Leave (Inl StopIteration) self)
            else consume (self\<lparr>buffer := chunk\<rparr>) row current_field in_quotes))
      else consume self row current_field in_quotes)"

text \<open>The characters the reader has not consumed yet.\<close>

definition pending :: "CustomCsvReader \<Rightarrow> nat" where
  "pending self = length (buffer self) + length (concat (fileobj self))"

lemma consume_pending:
  "consume self row cf q = Again self' row' cf' q' \<Longrightarrow>
   length (buffer self') < length (buffer self) \<and> fileobj self' = fileobj self"
  by (auto simp: consume_def Let_def split: list.splits if_splits)

lemma loop_body_pending:
  assumes "loop_body self row cf q = Again self' row' cf' q'"
  shows "pending self' < pending self"
proof (cases "buffer self = []")
  case False
  with assms have "consume self row cf q = Again self' row' cf' q'"
    by (simp add: loop_body_def)
  from consume_pending [OF this] show ?thesis
    by (simp add: pending_def)
next
  case True
  show ?thesis
  proof (cases "fileobj self")
    case Nil
    with True assms show ?thesis
      by (simp add: loop_body_def Let_def split: if_splits)
  next
    case (Cons chunk f)
    with True assms have ne: "chunk \<noteq> []"
      and c: "consume (self\<lparr>fileobj := f, buffer := chunk\<rparr>) row cf q = Again self' row' cf' q'"
      by (auto simp: loop_body_def Let_def split: if_splits)
    from consume_pending [OF c] True Cons show ?thesis
      by (simp add: pending_def)
  qed
qed

text \<open>The loop \<^verbatim>\<open>while True\<close> of \<^verbatim>\<open>__next__\<close>.\<close>

function loop :: "CustomCsvReader \<Rightarrow> string list \<Rightarrow> string \<Rightarrow> bool
    \<Rightarrow> (error + string list) \<times> CustomCsvReader" where
  "loop self row current_field in_quotes =
     (case loop_body self row current_field in_quotes of
        Leave result self' \<Rightarrow> (result, self')
      | Again self' row' current_field' in_quotes' \<Rightarrow>
          loop self' row' current_field' in_quotes')"
  by pat_completeness auto
termination
  by (relation "measure (\<lambda>(self, row, cf, q). pending self)")
     (auto dest: loop_body_pending)

text \<open>\<^verbatim>\<open>CustomCsvReader.__next__\<close>: the result, and the reader as the call leaves it.\<close>

definition next_row :: "CustomCsvReader \<Rightarrow> (error + string list) \<times> CustomCsvReader" where
  "next_row self =
     (if eof self \<and> buffer self = [] then (Inl StopIteration, self)
      else loop self [] [] False)"

lemma loop_progress:
  "loop self row cf q = (Inr r, self') \<Longrightarrow>
   (eof self' \<and> buffer self' = []) \<or> pending self' < pending self"
proof (induction self row cf q rule: loop.induct)
  case (1 self row cf q)
  show ?case
  proof (cases "loop_body self row cf q")
    case (Leave res s)
    with "1.prems" have eq: "res = Inr r" "s = self'"
      by simp_all
    show ?thesis
    proof (cases "buffer self = []")
      case True
      with Leave eq show ?thesis
        by (cases "fileobj self")
           (auto simp: loop_body_def consume_def pending_def Let_def
                 split: if_splits list.splits)
    next
      case False
      with Leave eq show ?thesis
        by (auto simp: loop_body_def consume_def pending_def Let_def
                 split: if_splits list.splits)
    qed
  next
    case (Again s row' cf' q')
    with "1.prems" have "loop s row' cf' q' = (Inr r, self')"
      by simp
    from "1.IH" [OF Again this] loop_body_pending [OF Again] show ?thesis
      by auto
  qed
qed

text \<open>
  \<^verbatim>\<open>CustomCsvReader.read\<close>, that is \<^verbatim>\<open>list(self)\<close>: call \<^verbatim>\<open>__next__\<close> until
  it raises \<^verbatim>\<open>StopIteration\<close>; any other exception passes through.
\<close>

function read :: "CustomCsvReader \<Rightarrow> (error + string list list) \<times> CustomCsvReader" where
  "read self =
     (case next_row self of
        (Inl StopIteration, self') \<Rightarrow> (Inr [], self')
      | (Inl IndexError, self') \<Rightarrow> (Inl IndexError, self')
      | (Inr row, self') \<Rightarrow>
          (case read self' of
             (Inl e, self'') \<Rightarrow> (Inl e, self'')
           | (Inr rows, self'') \<Rightarrow> (Inr (row # rows), self'')))"
  by pat_completeness auto
termination
proof (relation "measure (\<lambda>self. if eof self \<and> buffer self = [] then 0 else Suc (pending self))")
  show "wf (measure (\<lambda>self. if eof self \<and> buffer self = [] then 0 else Suc (pending self)))"
    by simp
next
  fix self :: CustomCsvReader and x :: "error + string list" and self' :: CustomCsvReader
    and row :: "string list"
  assume "(x, self') = next_row self" and "x = Inr row"
  then have n: "next_row self = (Inr row, self')"
    by simp
  then have live: "\<not> (eof self \<and> buffer self = [])"
    by (auto simp: next_row_def)
  with n have "loop self [] [] False = (Inr row, self')"
    by (simp add: next_row_def)
  from loop_progress [OF this] live
  show "(self', self) \<in> measure (\<lambda>self. if eof self \<and> buffer self = [] then 0
                                          else Suc (pending self))"
    by auto
qed

subsection \<open>The writer\<close>

text \<open>
  The writer keeps its configuration and the output file object, of which only
  \<^verbatim>\<open>write\<close> is called: the file object is modelled by the text written so far.
\<close>

record CustomCsvWriter = csv_config +
  outfile :: string

definition CustomCsvWriter_init :: "string \<Rightarrow> char \<Rightarrow> char \<Rightarrow> CustomCsvWriter" where
  "CustomCsvWriter_init f d q = \<lparr>delimiter = d, quotechar = q, outfile = f\<rparr>"

definition CustomCsvWriter_default :: "string \<Rightarrow> CustomCsvWriter" where
  "CustomCsvWriter_default f = CustomCsvWriter_init f (CHR '','') (CHR 0x22)"

text \<open>\<^verbatim>\<open>_needs_quoting\<close>; \<^verbatim>\<open>c in field\<close> for a one-character \<open>c\<close>.\<close>

definition needs_quoting :: "CustomCsvWriter \<Rightarrow> string \<Rightarrow> bool" where
  "needs_quoting self field \<longleftrightarrow>
     delimiter self \<in> set field \<or> quotechar self \<in> set field \<or>
     LF \<in> set field \<or> CR \<in> set field"

text \<open>\<^verbatim>\<open>str.replace(old, new)\<close> for a one-character \<open>old\<close>.\<close>

fun replace :: "char \<Rightarrow> string \<Rightarrow> string \<Rightarrow> string" where
  "replace old new [] = []"
| "replace old new (c # cs) =
     (if c = old then new @ replace old new cs else c # replace old new cs)"

text \<open>\<^verbatim>\<open>_escape_field\<close>.\<close>

definition escape_field :: "CustomCsvWriter \<Rightarrow> string \<Rightarrow> string" where
  "escape_field self field =
     (if needs_quoting self field then
        (let escaped = replace (quotechar self) [quotechar self, quotechar self] field
         in [quotechar self] @ escaped @ [quotechar self])
      else field)"

text \<open>\<^verbatim>\<open>sep.join(strings)\<close>.\<close>

fun join :: "string \<Rightarrow> string list \<Rightarrow> string" where
  "join sep [] = []"
| "join sep [s] = s"
| "join sep (s # t # ts) = s @ sep @ join sep (t # ts)"

text \<open>
  \<^verbatim>\<open>writerow\<close>. The fields of a row are any Python values; \<open>str\<close> stands for the
  builtin \<^verbatim>\<open>str\<close> on them, which is the identity on a value that already is a string.
\<close>

definition writerow :: "('a \<Rightarrow> string) \<Rightarrow> CustomCsvWriter \<Rightarrow> 'a list \<Rightarrow> CustomCsvWriter" where
  "writerow str self row =
     (let escaped_fields = map (\<lambda>field. escape_field self (str field)) row;
          line = join [delimiter self] escaped_fields @ [LF]
      in self\<lparr>outfile := outfile self @ line\<rparr>)"

text \<open>\<^verbatim>\<open>writerows\<close>.\<close>

fun writerows :: "('a \<Rightarrow> string) \<Rightarrow> CustomCsvWriter \<Rightarrow> 'a list list \<Rightarrow> CustomCsvWriter" where
  "writerows str self [] = self"
| "writerows str self (row # rows) = writerows str (writerow str self row) rows"

subsection \<open>The written form, in the words of the specification\<close>

text \<open>
  The specification describes what \<^verbatim>\<open>writerow\<close> emits: a field requires quoting
  if and only if it contains the delimiter, the quote character, CR or LF; a quoted field
  has every quote character doubled and one quote character on each side; the fields
  are joined by the delimiter. These definitions follow those words and are compared
  with the functions translated from the source.
\<close>

definition requires_quoting :: "char \<Rightarrow> char \<Rightarrow> string \<Rightarrow> bool" where
  "requires_quoting d q field \<longleftrightarrow> (\<exists>c \<in> set field. c = d \<or> c = q \<or> c = CR \<or> c = LF)"

definition doubled :: "char \<Rightarrow> string \<Rightarrow> string" where
  "doubled q field = concat (map (\<lambda>c. if c = q then [q, q] else [c]) field)"

definition written_field :: "char \<Rightarrow> char \<Rightarrow> string \<Rightarrow> string" where
  "written_field d q field =
     (if requires_quoting d q field then [q] @ doubled q field @ [q] else field)"

definition joined :: "char \<Rightarrow> string list \<Rightarrow> string" where
  "joined d row = (case row of [] \<Rightarrow> [] | f # fs \<Rightarrow> f @ concat (map (\<lambda>g. d # g) fs))"

subsection \<open>The unread input of a reader\<close>

text \<open>
  For the proofs about whole lines: the characters a reader has still to consume (its
  buffer and then the chunks to come), the reader after the refill of an empty buffer,
  the reader after one character has been taken, and the condition that no chunk is
  empty and no chunk other than the last ends with the quote character.
\<close>

definition stream :: "CustomCsvReader \<Rightarrow> string" where
  "stream self = buffer self @ concat (fileobj self)"

definition refill :: "CustomCsvReader \<Rightarrow> CustomCsvReader" where
  "refill self =
     (if buffer self = [] then
        (case fileobj self of [] \<Rightarrow> self | chunk # f \<Rightarrow> self\<lparr>fileobj := f, buffer := chunk\<rparr>)
      else self)"

definition pop :: "CustomCsvReader \<Rightarrow> CustomCsvReader" where
  "pop self = (refill self)\<lparr>buffer := tl (buffer (refill self))\<rparr>"

fun pops :: "nat \<Rightarrow> CustomCsvReader \<Rightarrow> CustomCsvReader" where
  "pops 0 self = self"
| "pops (Suc n) self = pops n (pop self)"

definition unsplit :: "CustomCsvReader \<Rightarrow> bool" where
  "unsplit self \<longleftrightarrow>
     [] \<notin> set (fileobj self) \<and>
     (\<forall>chunk \<in> set (butlast (buffer self # fileobj self)).
        chunk \<noteq> [] \<longrightarrow> last chunk \<noteq> quotechar self)"

text \<open>
  The same condition for any character in place of the quote character, and the reader
  after the lookahead that follows a line terminator: an LF that is next in the buffer
  after a CR is dropped.
\<close>

definition no_chunk_ends_with :: "char \<Rightarrow> CustomCsvReader \<Rightarrow> bool" where
  "no_chunk_ends_with c self \<longleftrightarrow>
     [] \<notin> set (fileobj self) \<and>
     (\<forall>chunk \<in> set (butlast (buffer self # fileobj self)).
        chunk \<noteq> [] \<longrightarrow> last chunk \<noteq> c)"

definition skip_buffered_LF :: "char \<Rightarrow> CustomCsvReader \<Rightarrow> CustomCsvReader" where
  "skip_buffered_LF c self =
     (if c = CR \<and> buffer self \<noteq> [] \<and> hd (buffer self) = LF
      then self\<lparr>buffer := tl (buffer self)\<rparr> else self)"

subsection \<open>The fields of a line without quotes\<close>

text \<open>
  A line without quote characters split at its delimiters, as Python's
  \<^verbatim>\<open>line.split(d)\<close> does; the accumulator is the field read so far.
\<close>

fun split_acc :: "char \<Rightarrow> string \<Rightarrow> string \<Rightarrow> string list" where
  "split_acc d acc [] = [acc]"
| "split_acc d acc (c # cs) =
     (if c = d then acc # split_acc d [] cs else split_acc d (acc @ [c]) cs)"

definition split_fields :: "char \<Rightarrow> string \<Rightarrow> string list" where
  "split_fields d line = split_acc d [] line"

subsection \<open>Stepping the loop\<close>

declare loop.simps [simp del]

lemma LF_neq_CR [simp]: "LF \<noteq> CR" "CR \<noteq> LF"
  by (simp_all add: LF_def CR_def)

lemma loop_Leave:
  "loop_body self row cf q = Leave res self' \<Longrightarrow> loop self row cf q = (res, self')"
  by (simp add: loop.simps)

lemma loop_Again:
  "loop_body self row cf q = Again self' row' cf' q' \<Longrightarrow>
   loop self row cf q = loop self' row' cf' q'"
  by (simp add: loop.simps)

lemma chunks_of_single: "text \<noteq> [] \<Longrightarrow> length text \<le> n \<Longrightarrow> chunks_of n text = [text]"
  by (cases "text") auto

declare chunks_of.simps [simp del]

lemmas run_reader =
  next_row_def CustomCsvReader_default_def CustomCsvReader_init_def
  loop.simps loop_body_def consume_def LF_def CR_def

lemma chunks_of_two:
  assumes "length xs = n" and "0 < n" and "ys \<noteq> []" and "length ys \<le> n"
  shows "chunks_of n (xs @ ys) = [xs, ys]"
proof -
  from assms have "xs \<noteq> []"
    by auto
  with assms have "chunks_of n (xs @ ys) = xs # chunks_of n ys"
    by (subst chunks_of.simps) simp
  with assms show ?thesis
    by (simp add: chunks_of_single)
qed

lemma concat_chunks_of: "0 < n \<Longrightarrow> concat (chunks_of n xs) = xs"
proof (induction n xs rule: chunks_of.induct)
  case (1 n xs)
  then show ?case
    by (subst chunks_of.simps) simp
qed

lemma chunks_of_nonempty: "[] \<notin> set (chunks_of n xs)"
proof (induction n xs rule: chunks_of.induct)
  case (1 n xs)
  then show ?case
    by (subst chunks_of.simps) auto
qed

lemma replace_append: "replace old new (xs @ ys) = replace old new xs @ replace old new ys"
  by (induction xs) simp_all

lemma replace_replicate: "a \<noteq> old \<Longrightarrow> replace old new (replicate n a) = replicate n a"
  by (induction n) simp_all

subsection \<open>Consuming the unread input character by character\<close>

lemma refill_fields [simp]:
  "delimiter (refill self) = delimiter self"
  "quotechar (refill self) = quotechar self"
  "eof (refill self) = eof self"
  by (simp_all add: refill_def split: list.splits)

lemma pop_fields [simp]:
  "delimiter (pop self) = delimiter self"
  "quotechar (pop self) = quotechar self"
  "eof (pop self) = eof self"
  by (simp_all add: pop_def)

lemma pops_fields [simp]:
  "delimiter (pops n self) = delimiter self"
  "quotechar (pops n self) = quotechar self"
  "eof (pops n self) = eof self"
  by (induction n arbitrary: self; simp)+

lemma pops_add: "pops (m + n) self = pops n (pops m self)"
  by (induction m arbitrary: self) simp_all

lemma stream_refill [simp]: "stream (refill self) = stream self"
  by (simp add: stream_def refill_def split: list.splits)

lemma loop_body_refill:
  "[] \<notin> set (fileobj self) \<Longrightarrow> loop_body (refill self) row cf q = loop_body self row cf q"
  by (cases "fileobj self") (auto simp: refill_def loop_body_def)

lemma loop_refill:
  "[] \<notin> set (fileobj self) \<Longrightarrow> loop (refill self) row cf q = loop self row cf q"
  by (simp add: loop.simps [of "refill self"] loop.simps [of self] loop_body_refill)

lemma unsplit_refill: "unsplit self \<Longrightarrow> unsplit (refill self)"
  by (cases "fileobj self") (auto simp: unsplit_def refill_def)

lemma buffer_refill:
  assumes "[] \<notin> set (fileobj self)" and "stream self = c # rest"
  shows "\<exists>b. buffer (refill self) = c # b \<and> rest = b @ concat (fileobj (refill self))"
proof (cases "buffer self")
  case (Cons c' b)
  with assms show ?thesis
    by (simp add: refill_def stream_def)
next
  case Nil
  with assms obtain chunk f where "fileobj self = chunk # f"
    by (cases "fileobj self") (auto simp: stream_def)
  with Nil assms show ?thesis
    by (cases chunk) (auto simp: refill_def stream_def)
qed

lemma stream_pop:
  assumes "[] \<notin> set (fileobj self)" and "stream self = c # rest"
  shows "stream (pop self) = rest"
  using buffer_refill [OF assms] by (auto simp: pop_def stream_def)

lemma unsplit_pop:
  assumes "unsplit self"
  shows "unsplit (pop self)"
proof -
  from assms have u: "unsplit (refill self)"
    by (rule unsplit_refill)
  show ?thesis
  proof (cases "buffer (refill self)")
    case Nil
    with u show ?thesis
      by (simp add: pop_def unsplit_def)
  next
    case (Cons c b)
    with u show ?thesis
      by (cases "fileobj (refill self)"; cases b) (auto simp: pop_def unsplit_def)
  qed
qed

lemma unsplit_pops: "unsplit self \<Longrightarrow> unsplit (pops n self)"
  by (induction n arbitrary: self) (simp_all add: unsplit_pop)

lemma unsplit_chunks: "unsplit self \<Longrightarrow> [] \<notin> set (fileobj self)"
  by (simp add: unsplit_def)

lemma stream_pops:
  "unsplit self \<Longrightarrow> stream self = xs @ rest \<Longrightarrow> stream (pops (length xs) self) = rest"
proof (induction xs arbitrary: self)
  case Nil
  then show ?case by simp
next
  case (Cons x xs)
  from Cons.prems have "stream (pop self) = xs @ rest"
    by (intro stream_pop) (simp_all add: unsplit_chunks)
  with Cons.IH [of "pop self"] Cons.prems(1) show ?case
    by (simp add: unsplit_pop)
qed

lemma loop_via_refill:
  assumes "[] \<notin> set (fileobj self)"
    and "loop_body (refill self) row cf q = Again s row' cf' q'"
  shows "loop self row cf q = loop s row' cf' q'"
  using assms loop_refill [OF assms(1), of row cf q] loop_Again [OF assms(2)] by simp

lemma step_plain:
  assumes "[] \<notin> set (fileobj self)" and "stream self = c # rest"
    and "c \<noteq> quotechar self"
    and "q \<or> (c \<noteq> delimiter self \<and> c \<noteq> LF \<and> c \<noteq> CR)"
  shows "loop self row cf q = loop (pop self) row (cf @ [c]) q"
proof -
  from buffer_refill [OF assms(1,2)] obtain b where b: "buffer (refill self) = c # b"
    by blast
  with assms(3,4) have "loop_body (refill self) row cf q = Again (pop self) row (cf @ [c]) q"
    by (auto simp: loop_body_def consume_def pop_def Let_def)
  with assms(1) show ?thesis
    by (rule loop_via_refill)
qed

lemma step_open:
  assumes "[] \<notin> set (fileobj self)" and "stream self = quotechar self # rest"
  shows "loop self row cf False = loop (pop self) row cf True"
proof -
  from buffer_refill [OF assms(1,2)] obtain b where b: "buffer (refill self) = quotechar self # b"
    by blast
  then have "loop_body (refill self) row cf False = Again (pop self) row cf True"
    by (auto simp: loop_body_def consume_def pop_def Let_def)
  with assms(1) show ?thesis
    by (rule loop_via_refill)
qed

lemma step_close:
  assumes "[] \<notin> set (fileobj self)" and "stream self = quotechar self # rest"
    and "rest = [] \<or> hd rest \<noteq> quotechar self"
  shows "loop self row cf True = loop (pop self) row cf False"
proof -
  from buffer_refill [OF assms(1,2)] obtain b
    where b: "buffer (refill self) = quotechar self # b"
      and r: "rest = b @ concat (fileobj (refill self))"
    by blast
  from r assms(3) have "b = [] \<or> hd b \<noteq> quotechar self"
    by (cases b) auto
  with b have "loop_body (refill self) row cf True = Again (pop self) row cf False"
    by (auto simp: loop_body_def consume_def pop_def Let_def)
  with assms(1) show ?thesis
    by (rule loop_via_refill)
qed

lemma step_pair:
  assumes "unsplit self" and "stream self = quotechar self # quotechar self # rest"
  shows "loop self row cf True = loop (pop (pop self)) row (cf @ [quotechar self]) True"
proof -
  from assms(1) have ne: "[] \<notin> set (fileobj self)"
    by (rule unsplit_chunks)
  from buffer_refill [OF ne assms(2)] obtain b
    where b: "buffer (refill self) = quotechar self # b"
      and r: "quotechar self # rest = b @ concat (fileobj (refill self))"
    by blast
  from assms(1) have u: "unsplit (refill self)"
    by (rule unsplit_refill)
  have "b \<noteq> []"
  proof
    assume "b = []"
    with r have "fileobj (refill self) \<noteq> []"
      by auto
    with u b \<open>b = []\<close> show False
      by (cases "fileobj (refill self)") (auto simp: unsplit_def)
  qed
  with r obtain b' where b': "b = quotechar self # b'"
    by (cases b) auto
  have "pop (pop self) = (refill self)\<lparr>buffer := b'\<rparr>"
    using b b' by (simp add: pop_def refill_def)
  with b b' have "loop_body (refill self) row cf True
      = Again (pop (pop self)) row (cf @ [quotechar self]) True"
    by (auto simp: loop_body_def consume_def Let_def)
  with ne show ?thesis
    by (rule loop_via_refill)
qed

lemma step_delimiter:
  assumes "[] \<notin> set (fileobj self)" and "stream self = delimiter self # rest"
    and "delimiter self \<noteq> quotechar self"
  shows "loop self row cf False = loop (pop self) (row @ [cf]) [] False"
proof -
  from buffer_refill [OF assms(1,2)] obtain b where b: "buffer (refill self) = delimiter self # b"
    by blast
  with assms(3) have "loop_body (refill self) row cf False = Again (pop self) (row @ [cf]) [] False"
    by (auto simp: loop_body_def consume_def pop_def Let_def)
  with assms(1) show ?thesis
    by (rule loop_via_refill)
qed

lemma step_LF:
  assumes "[] \<notin> set (fileobj self)" and "stream self = LF # rest"
    and "LF \<noteq> quotechar self" and "LF \<noteq> delimiter self"
  shows "loop self row cf False = (Inr (row @ [cf]), pop self)"
proof -
  from buffer_refill [OF assms(1,2)] obtain b where b: "buffer (refill self) = LF # b"
    by blast
  with assms(3,4) have "loop_body (refill self) row cf False = Leave (Inr (row @ [cf])) (pop self)"
    by (auto simp: loop_body_def consume_def pop_def Let_def)
  then have "loop (refill self) row cf False = (Inr (row @ [cf]), pop self)"
    by (rule loop_Leave)
  with loop_refill [OF assms(1)] show ?thesis
    by simp
qed

lemma pop_pops: "pop (pops n self) = pops n (pop self)"
  by (induction n arbitrary: self) simp_all

lemma run_plain:
  assumes "unsplit self" and "stream self = xs @ rest"
    and "\<forall>x \<in> set xs. x \<noteq> quotechar self \<and> (q \<or> (x \<noteq> delimiter self \<and> x \<noteq> LF \<and> x \<noteq> CR))"
  shows "loop self row cf q = loop (pops (length xs) self) row (cf @ xs) q"
  using assms
proof (induction xs arbitrary: self cf)
  case Nil
  then show ?case by simp
next
  case (Cons x xs)
  from Cons.prems have ne: "[] \<notin> set (fileobj self)"
    by (simp add: unsplit_chunks)
  from Cons.prems have s: "stream self = x # (xs @ rest)"
    by simp
  from Cons.prems have "loop self row cf q = loop (pop self) row (cf @ [x]) q"
    by (intro step_plain [OF ne s]) simp_all
  also have "\<dots> = loop (pops (length xs) (pop self)) row ((cf @ [x]) @ xs) q"
    using Cons.prems stream_pop [OF ne s]
    by (intro Cons.IH) (simp_all add: unsplit_pop)
  finally show ?case
    by simp
qed

lemma run_quoted:
  assumes "unsplit self"
    and "stream self = replace (quotechar self) [quotechar self, quotechar self] field @ rest"
  shows "loop self row cf True =
         loop (pops (length (replace (quotechar self) [quotechar self, quotechar self] field)) self)
           row (cf @ field) True"
  using assms
proof (induction field arbitrary: self cf)
  case Nil
  then show ?case by simp
next
  case (Cons x xs)
  let ?q = "quotechar self"
  from Cons.prems have ne: "[] \<notin> set (fileobj self)"
    by (simp add: unsplit_chunks)
  show ?case
  proof (cases "x = ?q")
    case True
    with Cons.prems have s: "stream self = ?q # ?q # (replace ?q [?q, ?q] xs @ rest)"
      by simp
    from ne s have s1: "stream (pop self) = ?q # (replace ?q [?q, ?q] xs @ rest)"
      by (rule stream_pop)
    from Cons.prems have ne1: "[] \<notin> set (fileobj (pop self))"
      by (simp add: unsplit_chunks unsplit_pop)
    from ne1 have s2: "stream (pop (pop self)) = replace ?q [?q, ?q] xs @ rest"
      using s1 by (rule stream_pop)
    from Cons.prems(1) s have "loop self row cf True = loop (pop (pop self)) row (cf @ [?q]) True"
      by (rule step_pair)
    also have "\<dots> = loop (pops (length (replace ?q [?q, ?q] xs)) (pop (pop self))) row
        ((cf @ [?q]) @ xs) True"
      using Cons.IH [of "pop (pop self)" "cf @ [?q]"] Cons.prems(1) s2
      by (simp add: unsplit_pop)
    finally show ?thesis
      using True by simp
  next
    case False
    with Cons.prems have s: "stream self = x # (replace ?q [?q, ?q] xs @ rest)"
      by simp
    from ne s have s1: "stream (pop self) = replace ?q [?q, ?q] xs @ rest"
      by (rule stream_pop)
    from False have "loop self row cf True = loop (pop self) row (cf @ [x]) True"
      by (intro step_plain [OF ne s]) simp_all
    also have "\<dots> = loop (pops (length (replace ?q [?q, ?q] xs)) (pop self)) row
        ((cf @ [x]) @ xs) True"
      using Cons.IH [of "pop self" "cf @ [x]"] Cons.prems(1) s1
      by (simp add: unsplit_pop)
    finally show ?thesis
      using False by simp
  qed
qed

lemma run_field:
  assumes "unsplit self"
    and "delimiter w = delimiter self" and "quotechar w = quotechar self"
    and "stream self = escape_field w field @ c # rest"
    and "c \<noteq> quotechar self"
  shows "loop self row [] False = loop (pops (length (escape_field w field)) self) row field False"
proof (cases "needs_quoting w field")
  case False
  with assms(2,3)
  have "\<forall>x \<in> set field. x \<noteq> quotechar self \<and>
          (False \<or> (x \<noteq> delimiter self \<and> x \<noteq> LF \<and> x \<noteq> CR))"
    by (auto simp: needs_quoting_def)
  moreover from False assms(4) have "stream self = field @ (c # rest)"
    by (simp add: escape_field_def)
  ultimately have "loop self row [] False = loop (pops (length field) self) row ([] @ field) False"
    by (intro run_plain [OF assms(1)])
  with False show ?thesis
    by (simp add: escape_field_def)
next
  case True
  let ?q = "quotechar self"
  let ?e = "replace ?q [?q, ?q] field"
  from True assms(3,4) have s: "stream self = ?q # (?e @ ?q # c # rest)"
    by (simp add: escape_field_def)
  from assms(1) have ne: "[] \<notin> set (fileobj self)"
    by (rule unsplit_chunks)
  from ne s have s1: "stream (pop self) = ?e @ (?q # c # rest)"
    by (rule stream_pop)
  from assms(1) have u1: "unsplit (pop self)"
    by (rule unsplit_pop)
  let ?s2 = "pops (length ?e) (pop self)"
  from u1 s1 have s2: "stream ?s2 = ?q # c # rest"
    by (rule stream_pops)
  from u1 have u2: "unsplit ?s2"
    by (rule unsplit_pops)
  from ne s have "loop self row [] False = loop (pop self) row [] True"
    by (rule step_open)
  also from u1 s1 have "\<dots> = loop ?s2 row ([] @ field) True"
    using run_quoted [of "pop self" field "?q # c # rest" row "[]"] by simp
  also have "\<dots> = loop (pop ?s2) row field False"
    using step_close [of ?s2 "c # rest" row field] s2 u2 assms(5)
    by (simp add: unsplit_chunks)
  finally show ?thesis
    using True assms(3) by (simp add: escape_field_def pop_pops)
qed

lemma run_row:
  assumes "unsplit self"
    and "delimiter w = delimiter self" and "quotechar w = quotechar self"
    and "delimiter self \<noteq> quotechar self" and "LF \<noteq> quotechar self" and "LF \<noteq> delimiter self"
    and "stream self = join [delimiter self] (map (escape_field w) (f # fs)) @ LF # rest"
  shows "loop self row [] False =
           (Inr (row @ f # fs),
            pops (Suc (length (join [delimiter self] (map (escape_field w) (f # fs))))) self)"
  using assms
proof (induction fs arbitrary: f self row)
  case Nil
  let ?s1 = "pops (length (escape_field w f)) self"
  from Nil.prems have s: "stream self = escape_field w f @ LF # rest"
    by simp
  from Nil.prems(1) s have s1: "stream ?s1 = LF # rest"
    by (rule stream_pops)
  from Nil.prems(1) have u1: "unsplit ?s1"
    by (rule unsplit_pops)
  have "loop self row [] False = loop ?s1 row f False"
    using run_field [of self w f LF rest row] Nil.prems s by simp
  also have "\<dots> = (Inr (row @ [f]), pop ?s1)"
    using step_LF [of ?s1 rest row f] s1 u1 Nil.prems by (simp add: unsplit_chunks)
  finally show ?case
    using pops_add [of "length (escape_field w f)" 1 self] by simp
next
  case (Cons g gs)
  let ?d = "delimiter self"
  let ?tail = "join [?d] (map (escape_field w) (g # gs))"
  let ?s1 = "pops (length (escape_field w f)) self"
  from Cons.prems have s: "stream self = escape_field w f @ ?d # (?tail @ LF # rest)"
    by simp
  from Cons.prems(1) s have s1: "stream ?s1 = ?d # (?tail @ LF # rest)"
    by (rule stream_pops)
  from Cons.prems(1) have u1: "unsplit ?s1"
    by (rule unsplit_pops)
  then have ne1: "[] \<notin> set (fileobj ?s1)"
    by (rule unsplit_chunks)
  from ne1 s1 have s2: "stream (pop ?s1) = ?tail @ LF # rest"
    by (rule stream_pop)
  from u1 have u2: "unsplit (pop ?s1)"
    by (rule unsplit_pop)
  have "loop self row [] False = loop ?s1 row f False"
    using run_field [of self w f ?d "?tail @ LF # rest" row] Cons.prems s by simp
  also have "\<dots> = loop (pop ?s1) (row @ [f]) [] False"
    using step_delimiter [of ?s1 "?tail @ LF # rest" row f] s1 ne1 Cons.prems by simp
  also have "\<dots> = (Inr ((row @ [f]) @ g # gs),
      pops (Suc (length (join [delimiter (pop ?s1)] (map (escape_field w) (g # gs))))) (pop ?s1))"
    using u2 s2 Cons.prems by (intro Cons.IH) simp_all
  finally show ?case
    using pops_add [of "length (escape_field w f)" "Suc (Suc (length ?tail))" self]
    by simp
qed

lemma unsplit_init:
  assumes "[] \<notin> set chunks" and "\<forall>chunk \<in> set (butlast chunks). last chunk \<noteq> q"
  shows "unsplit (CustomCsvReader_init chunks d q)"
  using assms by (cases chunks) (auto simp: unsplit_def CustomCsvReader_init_def)

lemma stream_empty:
  assumes "[] \<notin> set (fileobj self)" and "stream self = []"
  shows "buffer self = [] \<and> fileobj self = []"
  using assms by (cases "fileobj self") (auto simp: stream_def)

lemma next_row_reads_written_row:
  assumes "delimiter self \<noteq> quotechar self" and "LF \<noteq> quotechar self" and "LF \<noteq> delimiter self"
    and "row \<noteq> []"
    and "delimiter w = delimiter self" and "quotechar w = quotechar self"
    and "stream self = join [delimiter w] (map (escape_field w) row) @ LF # rest"
    and "unsplit self" and "\<not> eof self"
  shows "next_row self =
           (Inr row, pops (Suc (length (join [delimiter w] (map (escape_field w) row)))) self)"
proof -
  from assms(4) obtain f fs where row: "row = f # fs"
    by (cases row) auto
  from assms have "loop self [] [] False =
      (Inr ([] @ f # fs),
       pops (Suc (length (join [delimiter self] (map (escape_field w) (f # fs))))) self)"
    unfolding row by (intro run_row) simp_all
  with assms(5,9) show ?thesis
    by (simp add: next_row_def row)
qed

lemma run_buffer_plain:
  assumes "buffer self = xs @ b"
    and "\<forall>x \<in> set xs. x \<noteq> quotechar self \<and> (q \<or> (x \<noteq> delimiter self \<and> x \<noteq> LF \<and> x \<noteq> CR))"
  shows "loop self row cf q = loop (self\<lparr>buffer := b\<rparr>) row (cf @ xs) q"
  using assms
proof (induction xs arbitrary: self cf)
  case Nil
  then have "self\<lparr>buffer := b\<rparr> = self"
    by (cases self) simp
  then show ?case by simp
next
  case (Cons x xs)
  from Cons.prems have "loop_body self row cf q = Again (self\<lparr>buffer := xs @ b\<rparr>) row (cf @ [x]) q"
    by (auto simp: loop_body_def consume_def Let_def)
  then have "loop self row cf q = loop (self\<lparr>buffer := xs @ b\<rparr>) row (cf @ [x]) q"
    by (rule loop_Again)
  also from Cons.prems have "\<dots> = loop (self\<lparr>buffer := xs @ b, buffer := b\<rparr>) row ((cf @ [x]) @ xs) q"
    by (intro Cons.IH) simp_all
  finally show ?case
    by simp
qed

lemma split_pair_misread:
  assumes "a \<noteq> CHR 0x22"
  shows "next_row (CustomCsvReader_default
           [CHR 0x22 # replicate n a @ [CHR 0x22], [CHR 0x22, CHR 0x22, LF]])
         = (Inr [replicate n a], CustomCsvReader_default [])"
proof -
  let ?q = "CHR 0x22 :: char"
  let ?r = "CustomCsvReader_default [?q # replicate n a @ [?q], [?q, ?q, LF]]"
  let ?r1 = "?r\<lparr>fileobj := [[?q, ?q, LF]], buffer := replicate n a @ [?q]\<rparr>"
  have "loop_body ?r [] [] False = Again ?r1 [] [] True"
    by (simp add: loop_body_def consume_def CustomCsvReader_default_def CustomCsvReader_init_def)
  then have "loop ?r [] [] False = loop ?r1 [] [] True"
    by (rule loop_Again)
  also from assms have "\<dots> = loop (?r1\<lparr>buffer := [?q]\<rparr>) [] ([] @ replicate n a) True"
    by (intro run_buffer_plain)
       (simp_all add: CustomCsvReader_default_def CustomCsvReader_init_def)
  also have "\<dots> = (Inr [replicate n a], CustomCsvReader_default [])"
    by (simp add: loop.simps loop_body_def consume_def CustomCsvReader_default_def
        CustomCsvReader_init_def LF_def CR_def)
  finally show ?thesis
    by (simp add: next_row_def CustomCsvReader_default_def CustomCsvReader_init_def)
qed

lemma chunks_pop: "[] \<notin> set (fileobj self) \<Longrightarrow> [] \<notin> set (fileobj (pop self))"
  by (cases "fileobj self") (auto simp: pop_def refill_def)

lemma pop_exhausted:
  "(pop self)\<lparr>fileobj := [], buffer := [], eof := True\<rparr> = self\<lparr>fileobj := [], buffer := [], eof := True\<rparr>"
  by (cases "fileobj self") (auto simp: pop_def refill_def)

lemma split_acc_nonempty [simp]: "split_acc d acc line \<noteq> []"
  by (induction line arbitrary: acc) simp_all

lemma last_split_acc:
  "line \<noteq> [] \<Longrightarrow> last line \<noteq> d \<Longrightarrow> last (split_acc d acc line) \<noteq> []"
proof (induction line arbitrary: acc)
  case Nil
  then show ?case by simp
next
  case (Cons c cs)
  then show ?case
    by (cases cs) (auto split: if_splits)
qed

lemma run_unterminated:
  assumes "[] \<notin> set (fileobj self)" and "stream self = line"
    and "\<forall>c \<in> set line. c \<noteq> quotechar self \<and> c \<noteq> LF \<and> c \<noteq> CR"
    and "delimiter self \<noteq> quotechar self"
    and "last (split_acc (delimiter self) cf line) \<noteq> []"
  shows "loop self row cf False =
           (Inr (row @ split_acc (delimiter self) cf line),
            self\<lparr>fileobj := [], buffer := [], eof := True\<rparr>)"
  using assms
proof (induction line arbitrary: self row cf)
  case Nil
  from stream_empty [OF Nil.prems(1,2)] have e: "buffer self = []" "fileobj self = []"
    by simp_all
  from Nil.prems(5) have "cf \<noteq> []"
    by simp
  with e have "loop_body self row cf False =
      Leave (Inr (row @ [cf])) (self\<lparr>fileobj := [], eof := True\<rparr>)"
    by (simp add: loop_body_def)
  moreover from e have "self\<lparr>fileobj := [], eof := True\<rparr> = self\<lparr>fileobj := [], buffer := [], eof := True\<rparr>"
    by (cases self) simp
  ultimately show ?case
    by (simp add: loop_Leave)
next
  case (Cons c cs)
  from Cons.prems(1,2) have s: "stream (pop self) = cs"
    by (rule stream_pop)
  from Cons.prems(1) have ne: "[] \<notin> set (fileobj (pop self))"
    by (rule chunks_pop)
  show ?case
  proof (cases "c = delimiter self")
    case True
    with Cons.prems have "loop self row cf False = loop (pop self) (row @ [cf]) [] False"
      by (intro step_delimiter) simp_all
    also have "\<dots> = (Inr ((row @ [cf]) @ split_acc (delimiter (pop self)) [] cs),
        (pop self)\<lparr>fileobj := [], buffer := [], eof := True\<rparr>)"
      using Cons.prems True ne s by (intro Cons.IH) simp_all
    finally show ?thesis
      using True by (simp add: pop_exhausted)
  next
    case False
    with Cons.prems have "loop self row cf False = loop (pop self) row (cf @ [c]) False"
      by (intro step_plain) simp_all
    also have "\<dots> = (Inr (row @ split_acc (delimiter (pop self)) (cf @ [c]) cs),
        (pop self)\<lparr>fileobj := [], buffer := [], eof := True\<rparr>)"
      using Cons.prems False ne s by (intro Cons.IH) simp_all
    finally show ?thesis
      using False by (simp add: pop_exhausted)
  qed
qed

lemma next_row_unterminated:
  assumes "[] \<notin> set chunks" and "concat chunks = line"
    and "line \<noteq> []" and "last line \<noteq> d"
    and "\<forall>c \<in> set line. c \<noteq> q \<and> c \<noteq> LF \<and> c \<noteq> CR"
    and "d \<noteq> q"
  shows "next_row (CustomCsvReader_init chunks d q) =
           (Inr (split_fields d line), CustomCsvReader_init [] d q \<lparr>eof := True\<rparr>)"
proof -
  let ?r = "CustomCsvReader_init chunks d q"
  from assms(3,4) have "last (split_acc d [] line) \<noteq> []"
    by (rule last_split_acc)
  with assms have "loop ?r [] [] False =
      (Inr ([] @ split_acc (delimiter ?r) [] line), ?r\<lparr>fileobj := [], buffer := [], eof := True\<rparr>)"
    by (intro run_unterminated) (simp_all add: CustomCsvReader_init_def stream_def)
  then show ?thesis
    by (simp add: next_row_def split_fields_def CustomCsvReader_init_def)
qed

subsection \<open>Whole lines, for every way the source cuts the input\<close>

lemma chunks_pops: "[] \<notin> set (fileobj self) \<Longrightarrow> [] \<notin> set (fileobj (pops n self))"
  by (induction n arbitrary: self) (simp_all add: chunks_pop)

lemma stream_pops_chunks:
  "[] \<notin> set (fileobj self) \<Longrightarrow> stream self = xs @ rest \<Longrightarrow>
   stream (pops (length xs) self) = rest"
proof (induction xs arbitrary: self)
  case Nil
  then show ?case by simp
next
  case (Cons x xs)
  from Cons.prems have "stream (pop self) = xs @ rest"
    by (intro stream_pop) simp_all
  with Cons.IH [of "pop self"] Cons.prems(1) show ?case
    by (simp add: chunks_pop)
qed

lemma pops_exhausted:
  "(pops n self)\<lparr>fileobj := [], buffer := [], eof := True\<rparr>
     = self\<lparr>fileobj := [], buffer := [], eof := True\<rparr>"
  by (induction n arbitrary: self) (simp_all add: pop_exhausted)

lemma run_plain_chunks:
  assumes "[] \<notin> set (fileobj self)" and "stream self = xs @ rest"
    and "\<forall>x \<in> set xs. x \<noteq> quotechar self \<and> (q \<or> (x \<noteq> delimiter self \<and> x \<noteq> LF \<and> x \<noteq> CR))"
  shows "loop self row cf q = loop (pops (length xs) self) row (cf @ xs) q"
  using assms
proof (induction xs arbitrary: self cf)
  case Nil
  then show ?case by simp
next
  case (Cons x xs)
  from Cons.prems have s: "stream self = x # (xs @ rest)"
    by simp
  from Cons.prems have "loop self row cf q = loop (pop self) row (cf @ [x]) q"
    by (intro step_plain [OF Cons.prems(1) s]) simp_all
  also have "\<dots> = loop (pops (length xs) (pop self)) row ((cf @ [x]) @ xs) q"
    using Cons.prems stream_pop [OF Cons.prems(1) s]
    by (intro Cons.IH) (simp_all add: chunks_pop)
  finally show ?case
    by simp
qed

lemma run_quoted_region:
  assumes "[] \<notin> set (fileobj self)"
    and "stream self = quotechar self # content @ quotechar self # rest"
    and "quotechar self \<notin> set content"
    and "rest = [] \<or> hd rest \<noteq> quotechar self"
  shows "loop self row cf False =
         loop (pops (Suc (Suc (length content))) self) row (cf @ content) False"
proof -
  let ?q = "quotechar self"
  from assms(1,2) have s1: "stream (pop self) = content @ (?q # rest)"
    by (intro stream_pop) simp_all
  from assms(1) have ne1: "[] \<notin> set (fileobj (pop self))"
    by (rule chunks_pop)
  let ?s2 = "pops (length content) (pop self)"
  from ne1 s1 have s2: "stream ?s2 = ?q # rest"
    by (rule stream_pops_chunks)
  from ne1 have ne2: "[] \<notin> set (fileobj ?s2)"
    by (rule chunks_pops)
  from assms(1,2) have "loop self row cf False = loop (pop self) row cf True"
    by (intro step_open) simp_all
  also from assms(3) have "\<dots> = loop ?s2 row (cf @ content) True"
    using run_plain_chunks [OF ne1 s1, of True row cf] by auto
  also have "\<dots> = loop (pop ?s2) row (cf @ content) False"
    using step_close [of ?s2 rest row "cf @ content"] ne2 s2 assms(4) by simp
  finally show ?thesis
    by (simp add: pop_pops)
qed

lemma run_line:
  assumes "[] \<notin> set (fileobj self)" and "stream self = line @ rest"
    and "\<forall>c \<in> set line. c \<noteq> quotechar self \<and> c \<noteq> LF \<and> c \<noteq> CR"
    and "delimiter self \<noteq> quotechar self"
  shows "loop self row cf False =
         loop (pops (length line) self)
           (row @ butlast (split_acc (delimiter self) cf line))
           (last (split_acc (delimiter self) cf line)) False"
  using assms
proof (induction line arbitrary: self row cf)
  case Nil
  then show ?case by simp
next
  case (Cons c cs)
  from Cons.prems have s: "stream self = c # (cs @ rest)"
    by simp
  from Cons.prems(1) s have s1: "stream (pop self) = cs @ rest"
    by (rule stream_pop)
  from Cons.prems(1) have ne: "[] \<notin> set (fileobj (pop self))"
    by (rule chunks_pop)
  show ?case
  proof (cases "c = delimiter self")
    case True
    with Cons.prems s have "loop self row cf False = loop (pop self) (row @ [cf]) [] False"
      by (intro step_delimiter) simp_all
    also have "\<dots> = loop (pops (length cs) (pop self))
        ((row @ [cf]) @ butlast (split_acc (delimiter (pop self)) [] cs))
        (last (split_acc (delimiter (pop self)) [] cs)) False"
      using Cons.prems ne s1 by (intro Cons.IH) simp_all
    finally show ?thesis
      using True by simp
  next
    case False
    with Cons.prems s have "loop self row cf False = loop (pop self) row (cf @ [c]) False"
      by (intro step_plain) simp_all
    also have "\<dots> = loop (pops (length cs) (pop self))
        (row @ butlast (split_acc (delimiter (pop self)) (cf @ [c]) cs))
        (last (split_acc (delimiter (pop self)) (cf @ [c]) cs)) False"
      using Cons.prems ne s1 by (intro Cons.IH) simp_all
    finally show ?thesis
      using False by simp
  qed
qed

lemma next_row_quoted_then_plain:
  assumes "[] \<notin> set chunks"
    and "concat chunks = [qc] @ content @ [qc, d] @ second @ [LF] @ after"
    and "qc \<notin> set content"
    and "\<forall>x \<in> set second. x \<noteq> qc \<and> x \<noteq> d \<and> x \<noteq> LF \<and> x \<noteq> CR"
    and "d \<noteq> qc" and "LF \<noteq> qc" and "LF \<noteq> d"
  shows "fst (next_row (CustomCsvReader_init chunks d qc)) = Inr [content, second]
    \<and> stream (snd (next_row (CustomCsvReader_init chunks d qc))) = after"
proof -
  let ?r = "CustomCsvReader_init chunks d qc"
  have cfg [simp]: "quotechar ?r = qc" "delimiter ?r = d" "\<not> eof ?r"
    by (simp_all add: CustomCsvReader_init_def)
  from assms(1) have ne: "[] \<notin> set (fileobj ?r)"
    by (simp add: CustomCsvReader_init_def)
  from assms(2) have s: "stream ?r = qc # content @ qc # (d # second @ LF # after)"
    by (simp add: stream_def CustomCsvReader_init_def)
  let ?s1 = "pops (Suc (Suc (length content))) ?r"
  have s1: "stream ?s1 = d # (second @ LF # after)"
    using stream_pops_chunks [OF ne, of "qc # content @ [qc]" "d # second @ LF # after"] s
    by simp
  from ne have ne1: "[] \<notin> set (fileobj ?s1)"
    by (rule chunks_pops)
  from ne1 s1 have s2: "stream (pop ?s1) = second @ (LF # after)"
    by (rule stream_pop)
  from ne1 have ne2: "[] \<notin> set (fileobj (pop ?s1))"
    by (rule chunks_pop)
  let ?s3 = "pops (length second) (pop ?s1)"
  from ne2 s2 have s3: "stream ?s3 = LF # after"
    by (rule stream_pops_chunks)
  from ne2 have ne3: "[] \<notin> set (fileobj ?s3)"
    by (rule chunks_pops)
  have "loop ?r [] [] False = loop ?s1 [] ([] @ content) False"
    using run_quoted_region [of ?r content "d # second @ LF # after" "[]" "[]"] ne s assms(3,5)
    by simp
  also have "\<dots> = loop (pop ?s1) [content] [] False"
    using step_delimiter [of ?s1 "second @ LF # after" "[]" content] ne1 s1 assms(5) by simp
  also have "\<dots> = loop ?s3 [content] ([] @ second) False"
    using run_plain_chunks [OF ne2 s2, of False "[content]" "[]"] assms(4) by simp
  also have "\<dots> = (Inr [content, second], pop ?s3)"
    using step_LF [of ?s3 after "[content]" second] ne3 s3 assms(6,7) by simp
  finally have l: "loop ?r [] [] False = (Inr [content, second], pop ?s3)" .
  then have "next_row ?r = (Inr [content, second], pop ?s3)"
    by (simp add: next_row_def)
  moreover from ne3 s3 have "stream (pop ?s3) = after"
    by (rule stream_pop)
  ultimately show ?thesis
    by simp
qed

lemma skip_buffered_LF_fields [simp]:
  "delimiter (skip_buffered_LF c self) = delimiter self"
  "quotechar (skip_buffered_LF c self) = quotechar self"
  "eof (skip_buffered_LF c self) = eof self"
  "fileobj (skip_buffered_LF c self) = fileobj self"
  by (simp_all add: skip_buffered_LF_def)

lemma stream_skip_none:
  "c = LF \<or> stream self = [] \<or> hd (stream self) \<noteq> LF \<Longrightarrow>
   stream (skip_buffered_LF c self) = stream self"
  by (cases "buffer self") (auto simp: skip_buffered_LF_def stream_def)

lemma no_chunk_ends_with_refill:
  "no_chunk_ends_with c self \<Longrightarrow> no_chunk_ends_with c (refill self)"
  by (cases "fileobj self") (auto simp: no_chunk_ends_with_def refill_def)

lemma no_chunk_ends_with_pop:
  assumes "no_chunk_ends_with c self"
  shows "no_chunk_ends_with c (pop self)"
proof -
  from assms have u: "no_chunk_ends_with c (refill self)"
    by (rule no_chunk_ends_with_refill)
  show ?thesis
  proof (cases "buffer (refill self)")
    case Nil
    with u show ?thesis
      by (simp add: pop_def no_chunk_ends_with_def)
  next
    case (Cons x b)
    with u show ?thesis
      by (cases "fileobj (refill self)"; cases b) (auto simp: pop_def no_chunk_ends_with_def)
  qed
qed

lemma no_chunk_ends_with_pops:
  "no_chunk_ends_with c self \<Longrightarrow> no_chunk_ends_with c (pops n self)"
  by (induction n arbitrary: self) (simp_all add: no_chunk_ends_with_pop)

lemma stream_skip_CRLF:
  assumes "no_chunk_ends_with CR self" and "stream self = CR # LF # rest"
  shows "stream (skip_buffered_LF CR (pop self)) = rest"
proof -
  from assms(1) have ne: "[] \<notin> set (fileobj self)"
    by (simp add: no_chunk_ends_with_def)
  from buffer_refill [OF ne assms(2)] obtain b
    where b: "buffer (refill self) = CR # b"
      and r: "LF # rest = b @ concat (fileobj (refill self))"
    by blast
  from assms(1) have u: "no_chunk_ends_with CR (refill self)"
    by (rule no_chunk_ends_with_refill)
  have "b \<noteq> []"
  proof
    assume "b = []"
    with r have "fileobj (refill self) \<noteq> []"
      by auto
    with u b \<open>b = []\<close> show False
      by (cases "fileobj (refill self)") (auto simp: no_chunk_ends_with_def)
  qed
  with r obtain b' where b': "b = LF # b'" and r': "rest = b' @ concat (fileobj (refill self))"
    by (cases b) auto
  with b show ?thesis
    by (simp add: skip_buffered_LF_def pop_def stream_def)
qed

lemma step_terminator:
  assumes "[] \<notin> set (fileobj self)" and "stream self = c # rest"
    and "c = LF \<or> c = CR"
    and "c \<noteq> quotechar self" and "c \<noteq> delimiter self"
  shows "loop self row cf False = (Inr (row @ [cf]), skip_buffered_LF c (pop self))"
proof -
  from buffer_refill [OF assms(1,2)] obtain b where b: "buffer (refill self) = c # b"
    by blast
  with assms(3,4,5) have "loop_body (refill self) row cf False
      = Leave (Inr (row @ [cf])) (skip_buffered_LF c (pop self))"
    by (auto simp: loop_body_def consume_def pop_def skip_buffered_LF_def Let_def)
  then have "loop (refill self) row cf False = (Inr (row @ [cf]), skip_buffered_LF c (pop self))"
    by (rule loop_Leave)
  with loop_refill [OF assms(1)] show ?thesis
    by simp
qed

lemma next_row_line:
  assumes "[] \<notin> set (fileobj self)" and "\<not> eof self"
    and "stream self = line @ c # rest"
    and "\<forall>x \<in> set line. x \<noteq> quotechar self \<and> x \<noteq> LF \<and> x \<noteq> CR"
    and "c = LF \<or> c = CR"
    and "c \<noteq> quotechar self" and "c \<noteq> delimiter self"
    and "delimiter self \<noteq> quotechar self"
  shows "next_row self =
           (Inr (split_fields (delimiter self) line),
            skip_buffered_LF c (pop (pops (length line) self)))"
proof -
  let ?s1 = "pops (length line) self"
  from assms(1,3) have s1: "stream ?s1 = c # rest"
    by (rule stream_pops_chunks)
  from assms(1) have ne1: "[] \<notin> set (fileobj ?s1)"
    by (rule chunks_pops)
  let ?fs = "split_acc (delimiter self) [] line"
  from assms have "loop self [] [] False = loop ?s1 ([] @ butlast ?fs) (last ?fs) False"
    by (intro run_line) simp_all
  also have "\<dots> = (Inr (butlast ?fs @ [last ?fs]), skip_buffered_LF c (pop ?s1))"
    using step_terminator [OF ne1 s1, of "butlast ?fs" "last ?fs"] assms(5,6,7) by simp
  finally show ?thesis
    using assms(2) by (simp add: next_row_def split_fields_def)
qed

lemma no_chunk_ends_with_init:
  assumes "[] \<notin> set chunks" and "\<forall>chunk \<in> set (butlast chunks). last chunk \<noteq> c"
  shows "no_chunk_ends_with c (CustomCsvReader_init chunks d q)"
  using assms by (cases chunks) (auto simp: no_chunk_ends_with_def CustomCsvReader_init_def)

lemma next_row_exhausted:
  assumes "[] \<notin> set (fileobj self)" and "stream self = []"
  shows "fst (next_row self) = Inl StopIteration"
proof -
  from stream_empty [OF assms] have e: "buffer self = []" "fileobj self = []"
    by simp_all
  then have "loop_body self [] [] False = Leave (Inl StopIteration) (self\<lparr>fileobj := [], eof := True\<rparr>)"
    by (simp add: loop_body_def)
  then have "loop self [] [] False = (Inl StopIteration, self\<lparr>fileobj := [], eof := True\<rparr>)"
    by (rule loop_Leave)
  then show ?thesis
    by (simp add: next_row_def)
qed

lemma read_two_lines:
  assumes "[] \<notin> set chunks"
    and "concat chunks = ''a,b'' @ [CR, LF] @ ''c,d'' @ [LF]"
    and "\<forall>chunk \<in> set (butlast chunks). last chunk \<noteq> CR"
  shows "fst (read (CustomCsvReader_default chunks)) = Inr [[''a'', ''b''], [''c'', ''d'']]"
proof -
  define r where "r = CustomCsvReader_default chunks"
  define s1 where "s1 = skip_buffered_LF CR (pop (pops (length ''a,b'') r))"
  define s2 where "s2 = skip_buffered_LF LF (pop (pops (length ''c,d'') s1))"
  have cfg: "delimiter r = CHR '',''" "quotechar r = CHR 0x22" "\<not> eof r"
    by (simp_all add: r_def CustomCsvReader_default_def CustomCsvReader_init_def)
  from assms(1) have ne: "[] \<notin> set (fileobj r)"
    by (simp add: r_def CustomCsvReader_default_def CustomCsvReader_init_def)
  from assms(2) have s: "stream r = ''a,b'' @ CR # (LF # ''c,d'' @ [LF])"
    by (simp add: r_def stream_def CustomCsvReader_default_def CustomCsvReader_init_def)
  from assms(1,3) have u: "no_chunk_ends_with CR r"
    unfolding r_def CustomCsvReader_default_def by (rule no_chunk_ends_with_init)
  have n1: "next_row r = (Inr (split_fields (delimiter r) ''a,b''), s1)"
    unfolding s1_def using ne cfg s
    by (intro next_row_line) (simp_all add: LF_def CR_def)
  have st1: "stream s1 = ''c,d'' @ LF # []"
    unfolding s1_def
    using stream_skip_CRLF [of "pops (length ''a,b'') r" "''c,d'' @ [LF]"]
      no_chunk_ends_with_pops [OF u, of "length ''a,b''"]
      stream_pops_chunks [OF ne s]
    by simp
  have ne1: "[] \<notin> set (fileobj s1)"
    unfolding s1_def using ne by (simp add: chunks_pop chunks_pops)
  have cfg1: "delimiter s1 = CHR '',''" "quotechar s1 = CHR 0x22" "\<not> eof s1"
    using cfg by (simp_all add: s1_def)
  have n2: "next_row s1 = (Inr (split_fields (delimiter s1) ''c,d''), s2)"
    unfolding s2_def using ne1 cfg1 st1
    by (intro next_row_line) (simp_all add: LF_def CR_def)
  have "stream (pop (pops (length ''c,d'') s1)) = []"
    using stream_pop [OF chunks_pops [OF ne1] stream_pops_chunks [OF ne1 st1]] .
  then have st2: "stream s2 = []"
    unfolding s2_def by (simp add: stream_skip_none)
  have ne2: "[] \<notin> set (fileobj s2)"
    unfolding s2_def using ne1 by (simp add: chunks_pop chunks_pops)
  from next_row_exhausted [OF ne2 st2] obtain s3 where n3: "next_row s2 = (Inl StopIteration, s3)"
    by (cases "next_row s2") simp
  have "read r = (Inr [split_fields (delimiter r) ''a,b'', split_fields (delimiter s1) ''c,d''], s3)"
    by (simp add: read.simps [of r] read.simps [of s1] read.simps [of s2] n1 n2 n3)
  then show ?thesis
    by (simp add: r_def [symmetric] cfg cfg1 split_fields_def)
qed

lemma run_field_end:
  assumes "unsplit self"
    and "delimiter w = delimiter self" and "quotechar w = quotechar self"
    and "stream self = escape_field w field"
  shows "loop self row [] False = loop (pops (length (escape_field w field)) self) row field False"
proof (cases "needs_quoting w field")
  case False
  with assms(2,3)
  have "\<forall>x \<in> set field. x \<noteq> quotechar self \<and>
          (False \<or> (x \<noteq> delimiter self \<and> x \<noteq> LF \<and> x \<noteq> CR))"
    by (auto simp: needs_quoting_def)
  moreover from False assms(4) have "stream self = field @ []"
    by (simp add: escape_field_def)
  ultimately have "loop self row [] False = loop (pops (length field) self) row ([] @ field) False"
    by (intro run_plain [OF assms(1)])
  with False show ?thesis
    by (simp add: escape_field_def)
next
  case True
  let ?q = "quotechar self"
  let ?e = "replace ?q [?q, ?q] field"
  from True assms(3,4) have s: "stream self = ?q # (?e @ [?q])"
    by (simp add: escape_field_def)
  from assms(1) have ne: "[] \<notin> set (fileobj self)"
    by (rule unsplit_chunks)
  from ne s have s1: "stream (pop self) = ?e @ [?q]"
    by (rule stream_pop)
  from assms(1) have u1: "unsplit (pop self)"
    by (rule unsplit_pop)
  let ?s2 = "pops (length ?e) (pop self)"
  from u1 s1 have s2: "stream ?s2 = [?q]"
    by (rule stream_pops)
  from u1 have u2: "unsplit ?s2"
    by (rule unsplit_pops)
  from ne s have "loop self row [] False = loop (pop self) row [] True"
    by (rule step_open)
  also from u1 s1 have "\<dots> = loop ?s2 row ([] @ field) True"
    using run_quoted [of "pop self" field "[?q]" row "[]"] by simp
  also have "\<dots> = loop (pop ?s2) row field False"
    using step_close [of ?s2 "[]" row field] s2 u2
    by (simp add: unsplit_chunks)
  finally show ?thesis
    using True assms(3) by (simp add: escape_field_def pop_pops)
qed

lemma loop_exhausted_field:
  assumes "[] \<notin> set (fileobj self)" and "stream self = []" and "cf \<noteq> []"
  shows "loop self row cf False =
           (Inr (row @ [cf]), self\<lparr>fileobj := [], buffer := [], eof := True\<rparr>)"
proof -
  from stream_empty [OF assms(1,2)] have e: "buffer self = []" "fileobj self = []"
    by simp_all
  with assms(3) have "loop_body self row cf False =
      Leave (Inr (row @ [cf])) (self\<lparr>fileobj := [], eof := True\<rparr>)"
    by (simp add: loop_body_def)
  moreover from e have "self\<lparr>fileobj := [], eof := True\<rparr>
      = self\<lparr>fileobj := [], buffer := [], eof := True\<rparr>"
    by (cases self) simp
  ultimately show ?thesis
    by (simp add: loop_Leave)
qed

lemma run_row_unterminated:
  assumes "unsplit self"
    and "delimiter w = delimiter self" and "quotechar w = quotechar self"
    and "delimiter self \<noteq> quotechar self"
    and "stream self = join [delimiter self] (map (escape_field w) (f # fs))"
    and "last (f # fs) \<noteq> []"
  shows "loop self row [] False =
           (Inr (row @ f # fs), self\<lparr>fileobj := [], buffer := [], eof := True\<rparr>)"
  using assms
proof (induction fs arbitrary: f self row)
  case Nil
  let ?s1 = "pops (length (escape_field w f)) self"
  from Nil.prems have s: "stream self = escape_field w f @ []"
    by simp
  from Nil.prems(1) s have s1: "stream ?s1 = []"
    by (rule stream_pops)
  from Nil.prems(1) have ne1: "[] \<notin> set (fileobj ?s1)"
    by (intro unsplit_chunks unsplit_pops)
  have "loop self row [] False = loop ?s1 row f False"
    using run_field_end [of self w f row] Nil.prems s by simp
  also from Nil.prems(6) have "\<dots> = (Inr (row @ [f]), ?s1\<lparr>fileobj := [], buffer := [], eof := True\<rparr>)"
    by (intro loop_exhausted_field [OF ne1 s1]) simp
  finally show ?case
    by (simp add: pops_exhausted)
next
  case (Cons g gs)
  let ?d = "delimiter self"
  let ?tail = "join [?d] (map (escape_field w) (g # gs))"
  let ?s1 = "pops (length (escape_field w f)) self"
  from Cons.prems have s: "stream self = escape_field w f @ ?d # ?tail"
    by simp
  from Cons.prems(1) s have s1: "stream ?s1 = ?d # ?tail"
    by (rule stream_pops)
  from Cons.prems(1) have u1: "unsplit ?s1"
    by (rule unsplit_pops)
  then have ne1: "[] \<notin> set (fileobj ?s1)"
    by (rule unsplit_chunks)
  from ne1 s1 have s2: "stream (pop ?s1) = ?tail"
    by (rule stream_pop)
  from u1 have u2: "unsplit (pop ?s1)"
    by (rule unsplit_pop)
  have "loop self row [] False = loop ?s1 row f False"
    using run_field [of self w f ?d ?tail row] Cons.prems s by simp
  also have "\<dots> = loop (pop ?s1) (row @ [f]) [] False"
    using step_delimiter [of ?s1 ?tail row f] s1 ne1 Cons.prems by simp
  also have "\<dots> = (Inr ((row @ [f]) @ g # gs),
      (pop ?s1)\<lparr>fileobj := [], buffer := [], eof := True\<rparr>)"
    using u2 s2 Cons.prems by (intro Cons.IH) simp_all
  finally show ?case
    by (simp add: pop_exhausted pops_exhausted)
qed

lemma next_row_unterminated_row:
  assumes "[] \<notin> set chunks" and "\<forall>chunk \<in> set (butlast chunks). last chunk \<noteq> q"
    and "concat chunks = join [d] (map (escape_field (CustomCsvWriter_init [] d q)) row)"
    and "row \<noteq> []" and "last row \<noteq> []" and "d \<noteq> q"
  shows "next_row (CustomCsvReader_init chunks d q) =
           (Inr row, CustomCsvReader_init [] d q \<lparr>eof := True\<rparr>)"
proof -
  let ?r = "CustomCsvReader_init chunks d q"
  let ?w = "CustomCsvWriter_init [] d q"
  from assms(4) obtain f fs where row: "row = f # fs"
    by (cases row) auto
  from assms(1,2) have u: "unsplit ?r"
    by (rule unsplit_init)
  from assms(3) have s: "stream ?r = join [delimiter ?r] (map (escape_field ?w) (f # fs))"
    by (simp add: stream_def CustomCsvReader_init_def row)
  have "loop ?r [] [] False =
      (Inr ([] @ f # fs), ?r\<lparr>fileobj := [], buffer := [], eof := True\<rparr>)"
    using u s assms(5,6) unfolding row
    by (intro run_row_unterminated)
       (simp_all add: CustomCsvReader_init_def CustomCsvWriter_init_def)
  then show ?thesis
    by (simp add: next_row_def row CustomCsvReader_init_def)
qed

section \<open>The writer's output\<close>

lemma replace_doubled: "replace q [q, q] field = doubled q field"
  by (induction field) (simp_all add: doubled_def)

lemma join_joined: "join [d] row = joined d row"
  by (induction "[d]" row rule: join.induct) (simp_all add: joined_def)

lemma needs_quoting_iff:
  "needs_quoting self field \<longleftrightarrow> requires_quoting (delimiter self) (quotechar self) field"
  by (auto simp: needs_quoting_def requires_quoting_def)

lemma length_doubled: "length field \<le> length (doubled q field)"
  by (induction field) (simp_all add: doubled_def)

lemma escape_field_written:
  "escape_field self field = written_field (delimiter self) (quotechar self) field"
  by (simp add: escape_field_def written_field_def needs_quoting_iff replace_doubled)

lemma quoted_differs: "[q] @ doubled q field @ [q] \<noteq> field"
proof
  assume "[q] @ doubled q field @ [q] = field"
  then have "length ([q] @ doubled q field @ [q]) = length field"
    by simp
  with length_doubled [of field q] show False
    by simp
qed

text \<open>
  Claim C2. \<^verbatim>\<open>writerow\<close> appends to the output exactly the fields, converted to
  text, each in its written form, joined by the delimiter and followed by one LF. The
  written form of a field is the field between two quote characters with every quote
  character in it doubled if and only if the field contains the delimiter, the quote
  character, CR or LF, and it is the field itself if and only if it contains none of
  them.
\<close>

theorem writerow_emits_quoted_fields:
  "outfile (writerow str self row) =
     outfile self @
     joined (delimiter self)
       (map (\<lambda>field. written_field (delimiter self) (quotechar self) (str field)) row) @ [LF]
   \<and> (escape_field self field = [quotechar self] @ doubled (quotechar self) field @ [quotechar self]
        \<longleftrightarrow> requires_quoting (delimiter self) (quotechar self) field)
   \<and> (escape_field self field = field
        \<longleftrightarrow> \<not> requires_quoting (delimiter self) (quotechar self) field)"
proof (intro conjI)
  show "outfile (writerow str self row) =
     outfile self @
     joined (delimiter self)
       (map (\<lambda>field. written_field (delimiter self) (quotechar self) (str field)) row) @ [LF]"
    by (simp add: writerow_def join_joined escape_field_written)
  show "escape_field self field = [quotechar self] @ doubled (quotechar self) field @ [quotechar self]
        \<longleftrightarrow> requires_quoting (delimiter self) (quotechar self) field"
    using quoted_differs [of "quotechar self" field]
    by (auto simp: escape_field_written written_field_def)
  show "escape_field self field = field
        \<longleftrightarrow> \<not> requires_quoting (delimiter self) (quotechar self) field"
    using quoted_differs [of "quotechar self" field]
    by (auto simp: escape_field_written written_field_def)
qed

theorem writerow_emits_quoted_fields_witness:
  \<open>outfile (writerow (\<lambda>s. s) (CustomCsvWriter_default (''x'' @ [LF])) [''a,b'', ''he said "hi"'', '''', ''c d''])
     = ''x'' @ [LF] @ ''"a,b","he said ""hi""",,c d'' @ [LF]
   \<and> escape_field (CustomCsvWriter_default []) (''a'' @ [CR]) = ''"a'' @ [CR] @ ''"''
   \<and> escape_field (CustomCsvWriter_default []) ''a;b'' = ''a;b''\<close>
  using writerow_emits_quoted_fields
    [of "\<lambda>s. s" "CustomCsvWriter_default (''x'' @ [LF])"
        "[''a,b'', [CHR ''h'', CHR ''e'', CHR '' '', CHR ''s'', CHR ''a'', CHR ''i'', CHR ''d'', CHR '' '',
           CHR 0x22, CHR ''h'', CHR ''i'', CHR 0x22], '''', ''c d'']" "''a;b''"]
  by (simp add: CustomCsvWriter_default_def CustomCsvWriter_init_def writerow_def escape_field_def
      needs_quoting_def LF_def CR_def)

section \<open>The reader's state machine\<close>

text \<open>
  Claim C3. While the reader is inside a quoted region, a delimiter or a line terminator
  (CR or LF) is appended to the current field as it is, whether the character was
  already in the buffer or is the first character of the chunk that the pass has to
  pull: the row and the quoted mode stay as they were and the loop goes round again.
  Hence, however the source cuts the input into chunks, a quoted field followed by the
  delimiter, a plain field and LF is read as one row: the content of the quoted region,
  delimiters and line terminators included, and the plain field; the reader is left in
  front of what follows the LF. With the default configuration the input
  \<^verbatim>\<open>"a,b",c\<close> followed by LF gives the row \<open>a,b\<close> and \<open>c\<close>, and the input
  \<^verbatim>\<open>"line1\<close> LF \<^verbatim>\<open>line2",x\<close> LF gives the single row whose first field
  holds the line feed, also when a chunk ends inside the quoted region.
\<close>

theorem quoted_region_is_literal:
  \<open>(c \<noteq> quotechar self \<and> (c = delimiter self \<or> c = LF \<or> c = CR) \<longrightarrow>
      (buffer self = c # rest \<longrightarrow>
         loop_body self row cf True = Again (self\<lparr>buffer := rest\<rparr>) row (cf @ [c]) True)
      \<and> (buffer self = [] \<and> fileobj self = (c # rest) # f \<longrightarrow>
         loop_body self row cf True
           = Again (self\<lparr>fileobj := f, buffer := rest\<rparr>) row (cf @ [c]) True))
   \<and> ([] \<notin> set chunks
        \<and> concat chunks = [qc] @ content @ [qc, d] @ second @ [LF] @ after
        \<and> qc \<notin> set content
        \<and> (\<forall>x \<in> set second. x \<noteq> qc \<and> x \<noteq> d \<and> x \<noteq> LF \<and> x \<noteq> CR)
        \<and> d \<noteq> qc \<and> LF \<noteq> qc \<and> LF \<noteq> d \<longrightarrow>
      fst (next_row (CustomCsvReader_init chunks d qc)) = Inr [content, second]
      \<and> stream (snd (next_row (CustomCsvReader_init chunks d qc))) = after)
   \<and> fst (next_row (CustomCsvReader_default [''"a,b",c'' @ [LF]])) = Inr [''a,b'', ''c'']
   \<and> fst (next_row (CustomCsvReader_default [''"line1'' @ [LF] @ ''line2",x'' @ [LF]]))
        = Inr [''line1'' @ [LF] @ ''line2'', ''x'']
   \<and> fst (next_row (CustomCsvReader_default [''"a'', '',b",c'' @ [LF]])) = Inr [''a,b'', ''c'']
   \<and> fst (next_row (CustomCsvReader_default [''"line1'', [LF] @ ''line2",x'' @ [LF]]))
        = Inr [''line1'' @ [LF] @ ''line2'', ''x'']\<close>
proof (intro conjI impI)
  assume a: "c \<noteq> quotechar self \<and> (c = delimiter self \<or> c = LF \<or> c = CR)"
  {
    assume "buffer self = c # rest"
    with a show "loop_body self row cf True = Again (self\<lparr>buffer := rest\<rparr>) row (cf @ [c]) True"
      by (simp add: loop_body_def consume_def)
  next
    assume "buffer self = [] \<and> fileobj self = (c # rest) # f"
    with a show "loop_body self row cf True
           = Again (self\<lparr>fileobj := f, buffer := rest\<rparr>) row (cf @ [c]) True"
      by (simp add: loop_body_def consume_def)
  }
next
  assume a: "[] \<notin> set chunks
        \<and> concat chunks = [qc] @ content @ [qc, d] @ second @ [LF] @ after
        \<and> qc \<notin> set content
        \<and> (\<forall>x \<in> set second. x \<noteq> qc \<and> x \<noteq> d \<and> x \<noteq> LF \<and> x \<noteq> CR)
        \<and> d \<noteq> qc \<and> LF \<noteq> qc \<and> LF \<noteq> d"
  then have "fst (next_row (CustomCsvReader_init chunks d qc)) = Inr [content, second]
      \<and> stream (snd (next_row (CustomCsvReader_init chunks d qc))) = after"
    by (intro next_row_quoted_then_plain) simp_all
  then show "fst (next_row (CustomCsvReader_init chunks d qc)) = Inr [content, second]"
    and "stream (snd (next_row (CustomCsvReader_init chunks d qc))) = after"
    by simp_all
next
  show \<open>fst (next_row (CustomCsvReader_default [''"a,b",c'' @ [LF]])) = Inr [''a,b'', ''c'']\<close>
    by (simp add: run_reader)
  show \<open>fst (next_row (CustomCsvReader_default [''"line1'' @ [LF] @ ''line2",x'' @ [LF]]))
        = Inr [''line1'' @ [LF] @ ''line2'', ''x'']\<close>
    by (simp add: run_reader)
  show \<open>fst (next_row (CustomCsvReader_default [''"a'', '',b",c'' @ [LF]])) = Inr [''a,b'', ''c'']\<close>
    by (simp add: run_reader)
  show \<open>fst (next_row (CustomCsvReader_default [''"line1'', [LF] @ ''line2",x'' @ [LF]]))
        = Inr [''line1'' @ [LF] @ ''line2'', ''x'']\<close>
    by (simp add: run_reader)
qed

theorem quoted_region_is_literal_witness:
  \<open>loop_body (CustomCsvReader_default [] \<lparr>buffer := '',x''\<rparr>) [] ''a'' True
     = Again (CustomCsvReader_default [] \<lparr>buffer := ''x''\<rparr>) [] ''a,'' True
   \<and> loop_body (CustomCsvReader_default [[LF] @ ''x'', ''y'']) [] ''a'' True
     = Again (CustomCsvReader_default [''y''] \<lparr>buffer := ''x''\<rparr>) [] (''a'' @ [LF]) True
   \<and> fst (next_row (CustomCsvReader_default [''"p'', '','' @ [CR], [LF] @ ''q"'', '',r'', ''s'' @ [LF] @ ''t'']))
     = Inr [''p,'' @ [CR, LF] @ ''q'', ''rs'']
   \<and> stream (snd (next_row (CustomCsvReader_default
        [''"p'', '','' @ [CR], [LF] @ ''q"'', '',r'', ''s'' @ [LF] @ ''t''])))
     = ''t''\<close>
  using quoted_region_is_literal
    [of "CHR '',''" "CustomCsvReader_default [] \<lparr>buffer := '',x''\<rparr>" "''x''" "[]" "''a''"]
    quoted_region_is_literal
    [of LF "CustomCsvReader_default [[LF] @ ''x'', ''y'']" "''x''" "[]" "''a''" "[''y'']"
      "[[CHR 0x22, CHR ''p''], [CHR '','', CR], [LF, CHR ''q'', CHR 0x22], '',r'', ''s'' @ [LF] @ ''t'']"
      "CHR 0x22" "''p,'' @ [CR, LF] @ ''q''" "CHR '',''" "''rs''" "''t''"]
  by (simp add: CustomCsvReader_default_def CustomCsvReader_init_def LF_def CR_def)

text \<open>
  Claim C4. Outside a quoted region a CR or LF closes the current field and the call
  returns the row at once, whether the character was already in the buffer or is the
  first character of the chunk that the pass has to pull. After a CR, an LF that is
  next in the buffer is taken as well, so CR LF is one terminator; a lone LF and a lone
  CR end the row by themselves. Hence, however the source cuts the input into chunks, a
  line without quote characters that ends in LF or CR is returned as its fields; the
  reader is then in front of what follows the terminator, and in front of what follows
  the LF of a CR LF when no chunk but the last ends with CR. With the default
  configuration the input \<open>a,b\<close> CR LF \<open>c,d\<close> LF is read as exactly the two rows
  \<open>a\<close>, \<open>b\<close> and \<open>c\<close>, \<open>d\<close>, in one chunk and in every such cut.
\<close>

theorem terminator_returns_row:
  "((c = LF \<or> c = CR) \<and> c \<noteq> quotechar self \<and> c \<noteq> delimiter self \<longrightarrow>
      (buffer self = c # rest \<longrightarrow>
         loop_body self row cf False =
           Leave (Inr (row @ [cf]))
             (self\<lparr>buffer := (if c = CR \<and> rest \<noteq> [] \<and> hd rest = LF then tl rest else rest)\<rparr>))
      \<and> (buffer self = [] \<and> fileobj self = (c # rest) # f \<longrightarrow>
         loop_body self row cf False =
           Leave (Inr (row @ [cf]))
             (self\<lparr>fileobj := f,
                   buffer := (if c = CR \<and> rest \<noteq> [] \<and> hd rest = LF then tl rest else rest)\<rparr>)))
   \<and> ([] \<notin> set chunks \<and> concat chunks = line @ t # after
        \<and> (\<forall>x \<in> set line. x \<noteq> qc \<and> x \<noteq> LF \<and> x \<noteq> CR)
        \<and> (t = LF \<or> t = CR) \<and> t \<noteq> qc \<and> t \<noteq> d \<and> d \<noteq> qc \<longrightarrow>
      fst (next_row (CustomCsvReader_init chunks d qc)) = Inr (split_fields d line)
      \<and> (t = LF \<or> after = [] \<or> hd after \<noteq> LF \<longrightarrow>
           stream (snd (next_row (CustomCsvReader_init chunks d qc))) = after)
      \<and> (t = CR \<and> after \<noteq> [] \<and> hd after = LF
           \<and> (\<forall>chunk \<in> set (butlast chunks). last chunk \<noteq> CR) \<longrightarrow>
           stream (snd (next_row (CustomCsvReader_init chunks d qc))) = tl after))
   \<and> ([] \<notin> set chunks \<and> concat chunks = ''a,b'' @ [CR, LF] @ ''c,d'' @ [LF]
        \<and> (\<forall>chunk \<in> set (butlast chunks). last chunk \<noteq> CR) \<longrightarrow>
      fst (read (CustomCsvReader_default chunks)) = Inr [[''a'', ''b''], [''c'', ''d'']])
   \<and> read (CustomCsvReader_default [''a,b'' @ [CR, LF] @ ''c,d'' @ [LF]])
        = (Inr [[''a'', ''b''], [''c'', ''d'']], CustomCsvReader_default [] \<lparr>eof := True\<rparr>)"
proof (intro conjI impI)
  assume a: "(c = LF \<or> c = CR) \<and> c \<noteq> quotechar self \<and> c \<noteq> delimiter self"
  {
    assume "buffer self = c # rest"
    with a show "loop_body self row cf False =
           Leave (Inr (row @ [cf]))
             (self\<lparr>buffer := (if c = CR \<and> rest \<noteq> [] \<and> hd rest = LF then tl rest else rest)\<rparr>)"
      by (auto simp: loop_body_def consume_def)
  next
    assume "buffer self = [] \<and> fileobj self = (c # rest) # f"
    with a show "loop_body self row cf False =
           Leave (Inr (row @ [cf]))
             (self\<lparr>fileobj := f,
                   buffer := (if c = CR \<and> rest \<noteq> [] \<and> hd rest = LF then tl rest else rest)\<rparr>)"
      by (auto simp: loop_body_def consume_def)
  }
next
  assume a: "[] \<notin> set chunks \<and> concat chunks = line @ t # after
        \<and> (\<forall>x \<in> set line. x \<noteq> qc \<and> x \<noteq> LF \<and> x \<noteq> CR)
        \<and> (t = LF \<or> t = CR) \<and> t \<noteq> qc \<and> t \<noteq> d \<and> d \<noteq> qc"
  define r where "r = CustomCsvReader_init chunks d qc"
  have cfg: "delimiter r = d" "quotechar r = qc" "\<not> eof r"
    by (simp_all add: r_def CustomCsvReader_init_def)
  from a have ne: "[] \<notin> set (fileobj r)"
    by (simp add: r_def CustomCsvReader_init_def)
  from a have s: "stream r = line @ t # after"
    by (simp add: r_def stream_def CustomCsvReader_init_def)
  from ne s have s1: "stream (pops (length line) r) = t # after"
    by (rule stream_pops_chunks)
  from ne have ne1: "[] \<notin> set (fileobj (pops (length line) r))"
    by (rule chunks_pops)
  from ne1 s1 have s2: "stream (pop (pops (length line) r)) = after"
    by (rule stream_pop)
  have n: "next_row r =
      (Inr (split_fields (delimiter r) line), skip_buffered_LF t (pop (pops (length line) r)))"
    using ne cfg s a by (intro next_row_line) simp_all
  from n cfg show "fst (next_row (CustomCsvReader_init chunks d qc)) = Inr (split_fields d line)"
    by (simp add: r_def)
  {
    assume "t = LF \<or> after = [] \<or> hd after \<noteq> LF"
    with s2 have "stream (skip_buffered_LF t (pop (pops (length line) r))) = after"
      by (simp add: stream_skip_none)
    with n show "stream (snd (next_row (CustomCsvReader_init chunks d qc))) = after"
      by (simp add: r_def)
  next
    assume b: "t = CR \<and> after \<noteq> [] \<and> hd after = LF
           \<and> (\<forall>chunk \<in> set (butlast chunks). last chunk \<noteq> CR)"
    with a have "no_chunk_ends_with CR r"
      unfolding r_def by (intro no_chunk_ends_with_init) simp_all
    then have u: "no_chunk_ends_with CR (pops (length line) r)"
      by (rule no_chunk_ends_with_pops)
    from b s1 have "stream (pops (length line) r) = CR # LF # tl after"
      by (cases after) simp_all
    with u have "stream (skip_buffered_LF CR (pop (pops (length line) r))) = tl after"
      by (rule stream_skip_CRLF)
    with n b show "stream (snd (next_row (CustomCsvReader_init chunks d qc))) = tl after"
      by (simp add: r_def)
  }
next
  assume "[] \<notin> set chunks \<and> concat chunks = ''a,b'' @ [CR, LF] @ ''c,d'' @ [LF]
        \<and> (\<forall>chunk \<in> set (butlast chunks). last chunk \<noteq> CR)"
  then show "fst (read (CustomCsvReader_default chunks)) = Inr [[''a'', ''b''], [''c'', ''d'']]"
    by (intro read_two_lines) simp_all
next
  show "read (CustomCsvReader_default [''a,b'' @ [CR, LF] @ ''c,d'' @ [LF]])
        = (Inr [[''a'', ''b''], [''c'', ''d'']], CustomCsvReader_default [] \<lparr>eof := True\<rparr>)"
    by (simp add: run_reader)
qed

theorem terminator_returns_row_witness:
  "loop_body (CustomCsvReader_default [] \<lparr>buffer := [CR, LF, CHR ''c'']\<rparr>) [''a''] ''b'' False
     = Leave (Inr [''a'', ''b'']) (CustomCsvReader_default [] \<lparr>buffer := ''c''\<rparr>)
   \<and> loop_body (CustomCsvReader_default [[LF] @ ''c'', ''d'']) [''a''] ''b'' False
     = Leave (Inr [''a'', ''b'']) (CustomCsvReader_default [''d''] \<lparr>buffer := ''c''\<rparr>)
   \<and> fst (next_row (CustomCsvReader_default [''a,'', ''b'', [CR, LF] @ ''c'']))
     = Inr [''a'', ''b'']
   \<and> stream (snd (next_row (CustomCsvReader_default [''a,'', ''b'', [CR, LF] @ ''c''])))
     = ''c''
   \<and> fst (read (CustomCsvReader_default [''a'', '',b'', [CR, LF] @ ''c,'', ''d'' @ [LF]]))
     = Inr [[''a'', ''b''], [''c'', ''d'']]"
  using terminator_returns_row
    [of CR "CustomCsvReader_default [] \<lparr>buffer := [CR, LF, CHR ''c'']\<rparr>" "[LF, CHR ''c'']"
        "[''a'']" "''b''"]
    terminator_returns_row
    [of LF "CustomCsvReader_default [[LF] @ ''c'', ''d'']" "''c''" "[''a'']" "''b''" "[''d'']"
        "[''a,'', ''b'', [CR, LF] @ ''c'']" "''a,b''" CR "[LF] @ ''c''" "CHR 0x22" "CHR '',''"]
    terminator_returns_row
    [of _ _ _ _ _ _ "[''a'', '',b'', [CR, LF] @ ''c,'', ''d'' @ [LF]]"]
  by (simp add: CustomCsvReader_default_def CustomCsvReader_init_def LF_def CR_def
      split_fields_def)

lemma loop_row_nonempty:
  "loop self row cf q = (Inr r, self') \<Longrightarrow> r \<noteq> []"
proof (induction self row cf q rule: loop.induct)
  case (1 self row cf q)
  show ?case
  proof (cases "loop_body self row cf q")
    case (Leave res s)
    with "1.prems" have "loop_body self row cf q = Leave (Inr r) self'"
      by (simp add: loop.simps)
    then show ?thesis
      by (cases "fileobj_read (fileobj self)")
         (auto simp: loop_body_def consume_def Let_def split: if_splits list.splits)
  next
    case (Again s row' cf' q')
    with "1.prems" have "loop s row' cf' q' = (Inr r, self')"
      by (simp add: loop.simps)
    from "1.IH" [OF Again this] show ?thesis .
  qed
qed

text \<open>
  Claim C5, for a field in progress. When the stream ends (the buffer is empty and the
  source delivers nothing) while a field is in progress, that is, the accumulator is
  not empty or the reader is inside a quoted region, the call still returns the row,
  ending with that field, and marks the end of the stream; the call after that reports
  the end of input. So a last line without a terminator is returned as its row,
  however the source cuts it into chunks, when it has no quote characters and does not
  end with the delimiter; and so is a row written as \<^verbatim>\<open>writerow\<close> writes it
  but without the final LF, when its last field is not empty and no chunk but the last
  ends with the quote character. With the default configuration the input \<open>a,b,c\<close>
  gives the one row \<open>a\<close>, \<open>b\<close>, \<open>c\<close> and then the end of input.
\<close>

theorem final_unterminated_row:
  "(buffer self = [] \<and> fst (fileobj_read (fileobj self)) = [] \<and> (cf \<noteq> [] \<or> q) \<longrightarrow>
      loop self row cf q =
        (Inr (row @ [cf]), self\<lparr>fileobj := snd (fileobj_read (fileobj self)), eof := True\<rparr>)
      \<and> next_row (self\<lparr>fileobj := snd (fileobj_read (fileobj self)), eof := True\<rparr>)
          = (Inl StopIteration, self\<lparr>fileobj := snd (fileobj_read (fileobj self)), eof := True\<rparr>))
   \<and> ([] \<notin> set chunks \<and> concat chunks = line \<and> line \<noteq> [] \<and> last line \<noteq> d \<and> d \<noteq> qc
        \<and> (\<forall>c \<in> set line. c \<noteq> qc \<and> c \<noteq> LF \<and> c \<noteq> CR) \<longrightarrow>
      next_row (CustomCsvReader_init chunks d qc)
        = (Inr (split_fields d line), CustomCsvReader_init [] d qc \<lparr>eof := True\<rparr>))
   \<and> ([] \<notin> set chunks \<and> (\<forall>chunk \<in> set (butlast chunks). last chunk \<noteq> qc)
        \<and> concat chunks = join [d] (map (escape_field (CustomCsvWriter_init [] d qc)) final_row)
        \<and> final_row \<noteq> [] \<and> last final_row \<noteq> [] \<and> d \<noteq> qc \<longrightarrow>
      next_row (CustomCsvReader_init chunks d qc)
        = (Inr final_row, CustomCsvReader_init [] d qc \<lparr>eof := True\<rparr>))
   \<and> next_row (CustomCsvReader_init [] d qc \<lparr>eof := True\<rparr>)
        = (Inl StopIteration, CustomCsvReader_init [] d qc \<lparr>eof := True\<rparr>)
   \<and> next_row (CustomCsvReader_default [''a,b,c''])
        = (Inr [''a'', ''b'', ''c''], CustomCsvReader_default [] \<lparr>eof := True\<rparr>)
   \<and> next_row (CustomCsvReader_default [] \<lparr>eof := True\<rparr>)
        = (Inl StopIteration, CustomCsvReader_default [] \<lparr>eof := True\<rparr>)"
proof (intro conjI impI)
  assume a: "buffer self = [] \<and> fst (fileobj_read (fileobj self)) = [] \<and> (cf \<noteq> [] \<or> q)"
  then show "loop self row cf q =
        (Inr (row @ [cf]), self\<lparr>fileobj := snd (fileobj_read (fileobj self)), eof := True\<rparr>)"
    by (cases "fileobj_read (fileobj self)") (auto simp: loop.simps loop_body_def)
  from a show "next_row (self\<lparr>fileobj := snd (fileobj_read (fileobj self)), eof := True\<rparr>)
          = (Inl StopIteration, self\<lparr>fileobj := snd (fileobj_read (fileobj self)), eof := True\<rparr>)"
    by (simp add: next_row_def)
next
  assume "[] \<notin> set chunks \<and> concat chunks = line \<and> line \<noteq> [] \<and> last line \<noteq> d \<and> d \<noteq> qc
        \<and> (\<forall>c \<in> set line. c \<noteq> qc \<and> c \<noteq> LF \<and> c \<noteq> CR)"
  then show "next_row (CustomCsvReader_init chunks d qc)
        = (Inr (split_fields d line), CustomCsvReader_init [] d qc \<lparr>eof := True\<rparr>)"
    by (intro next_row_unterminated) simp_all
next
  assume "[] \<notin> set chunks \<and> (\<forall>chunk \<in> set (butlast chunks). last chunk \<noteq> qc)
        \<and> concat chunks = join [d] (map (escape_field (CustomCsvWriter_init [] d qc)) final_row)
        \<and> final_row \<noteq> [] \<and> last final_row \<noteq> [] \<and> d \<noteq> qc"
  then show "next_row (CustomCsvReader_init chunks d qc)
        = (Inr final_row, CustomCsvReader_init [] d qc \<lparr>eof := True\<rparr>)"
    by (intro next_row_unterminated_row) simp_all
next
  show "next_row (CustomCsvReader_init [] d qc \<lparr>eof := True\<rparr>)
        = (Inl StopIteration, CustomCsvReader_init [] d qc \<lparr>eof := True\<rparr>)"
    by (simp add: next_row_def CustomCsvReader_init_def)
  show "next_row (CustomCsvReader_default [''a,b,c''])
        = (Inr [''a'', ''b'', ''c''], CustomCsvReader_default [] \<lparr>eof := True\<rparr>)"
    by (simp add: run_reader)
  show "next_row (CustomCsvReader_default [] \<lparr>eof := True\<rparr>)
        = (Inl StopIteration, CustomCsvReader_default [] \<lparr>eof := True\<rparr>)"
    by (simp add: run_reader)
qed

theorem final_unterminated_row_witness:
  \<open>loop (CustomCsvReader_default []) [''a'', ''b''] ''c'' False
     = (Inr [''a'', ''b'', ''c''], CustomCsvReader_default [] \<lparr>eof := True\<rparr>)
   \<and> next_row (CustomCsvReader_default [''ab,'', ''c'', ''d,ef''])
     = (Inr [''ab'', ''cd'', ''ef''], CustomCsvReader_default [] \<lparr>eof := True\<rparr>)
   \<and> next_row (CustomCsvReader_default [''x,"a,'', ''b""c'', ''"''])
     = (Inr [''x'', ''a,b"c''], CustomCsvReader_default [] \<lparr>eof := True\<rparr>)\<close>
  using final_unterminated_row [of "CustomCsvReader_default []" "''c''" False "[''a'', ''b'']"
      "[''ab,'', ''c'', ''d,ef'']" "''ab,cd,ef''" "CHR '',''" "CHR 0x22"]
    final_unterminated_row [of _ _ _ _
      "[[CHR ''x'', CHR '','', CHR 0x22, CHR ''a'', CHR '',''],
        [CHR ''b'', CHR 0x22, CHR 0x22, CHR ''c''], [CHR 0x22]]" _ "CHR '',''" "CHR 0x22"
      "[''x'', [CHR ''a'', CHR '','', CHR ''b'', CHR 0x22, CHR ''c'']]"]
  by (simp add: CustomCsvReader_default_def CustomCsvReader_init_def split_fields_def LF_def CR_def
      escape_field_def needs_quoting_def CustomCsvWriter_init_def)

text \<open>
  Claim C5 as it was stated covers every stream that ends in the middle of a row. It
  fails when the last field is still empty as the stream ends: the guard of line 52
  appends the accumulator only if it is not empty or the reader is inside a quoted
  region. The input \<open>a,b,\<close> gives \<open>a\<close>, \<open>b\<close> where the same line followed by LF
  gives three fields, and the input of two quote characters gives no row at all where
  the same line followed by LF gives the row of one empty field.
\<close>

theorem pending_empty_field_is_dropped:
  \<open>next_row (CustomCsvReader_default [''a,b,''])
     = (Inr [''a'', ''b''], CustomCsvReader_default [] \<lparr>eof := True\<rparr>)
   \<and> fst (next_row (CustomCsvReader_default [''a,b,'' @ [LF]])) = Inr [''a'', ''b'', '''']
   \<and> [''a'', ''b''] \<noteq> [''a'', ''b'', '''']
   \<and> next_row (CustomCsvReader_default [''""''])
     = (Inl StopIteration, CustomCsvReader_default [] \<lparr>eof := True\<rparr>)
   \<and> fst (next_row (CustomCsvReader_default [''""'' @ [LF]])) = Inr ['''']\<close>
  by (simp add: run_reader)



text \<open>
  Claim C8. Every row that \<^verbatim>\<open>__next__\<close> returns has at least one field. A line
  terminator at the very start of a call returns the row of one empty field, and with
  the default configuration the input \<open>a,,c\<close> LF gives \<open>a\<close>, the empty string and
  \<open>c\<close>.
\<close>

theorem row_has_a_field:
  "(next_row self = (Inr row, self') \<longrightarrow> row \<noteq> [])
    \<and> (buffer self = c # rest \<and> (c = LF \<or> c = CR) \<and> c \<noteq> quotechar self
          \<and> c \<noteq> delimiter self \<longrightarrow> fst (next_row self) = Inr [[]])
    \<and> fst (next_row (CustomCsvReader_default [[LF]])) = Inr [[]]
    \<and> fst (next_row (CustomCsvReader_default [''a,,c'' @ [LF]])) = Inr [''a'', [], ''c'']"
proof (intro conjI impI)
  assume "next_row self = (Inr row, self')"
  then have "loop self [] [] False = (Inr row, self')"
    by (simp add: next_row_def split: if_splits)
  then show "row \<noteq> []"
    by (rule loop_row_nonempty)
next
  assume "buffer self = c # rest \<and> (c = LF \<or> c = CR) \<and> c \<noteq> quotechar self
          \<and> c \<noteq> delimiter self"
  then show "fst (next_row self) = Inr [[]]"
    by (auto simp: next_row_def loop.simps loop_body_def consume_def Let_def)
next
  show "fst (next_row (CustomCsvReader_default [[LF]])) = Inr [[]]"
    by (simp add: run_reader)
  show "fst (next_row (CustomCsvReader_default [''a,,c'' @ [LF]])) = Inr [''a'', [], ''c'']"
    by (simp add: run_reader)
qed

theorem row_has_a_field_witness:
  "next_row (CustomCsvReader_default [''x''])
     = (Inr [''x''], CustomCsvReader_default [] \<lparr>eof := True\<rparr>)
   \<and> [''x''] \<noteq> []
   \<and> fst (next_row (CustomCsvReader_default [] \<lparr>buffer := [LF]\<rparr>)) = Inr [[]]"
  using row_has_a_field [of "CustomCsvReader_default [''x'']" "[''x'']"
      "CustomCsvReader_default [] \<lparr>eof := True\<rparr>"]
    row_has_a_field [of "CustomCsvReader_default [] \<lparr>buffer := [LF]\<rparr>" "[]"
      "CustomCsvReader_default []" LF "[]"]
  by (simp add: run_reader)

section \<open>Chunk boundaries and the empty row\<close>

text \<open>
  Claim C9. \<^verbatim>\<open>writerow\<close> of the empty row writes a single LF, and reading that
  line back gives the row of one empty field, which is not the empty row.
\<close>

theorem empty_row_round_trip_fails:
  assumes "q \<noteq> LF" and "d \<noteq> LF"
  shows "outfile (writerow str (CustomCsvWriter_init out d q) []) = out @ [LF]
    \<and> next_row (CustomCsvReader_init
          (StringIO (outfile (writerow str (CustomCsvWriter_init [] d q) []))) d q)
        = (Inr [[]], CustomCsvReader_init [] d q)
    \<and> [[]] \<noteq> ([] :: string list)"
  using assms
  by (simp add: writerow_def CustomCsvWriter_init_def StringIO_def chunks_of_single
      next_row_def CustomCsvReader_init_def loop.simps loop_body_def consume_def)

theorem empty_row_round_trip_fails_witness:
  "outfile (writerow (\<lambda>s. s) (CustomCsvWriter_default []) []) = [LF]
    \<and> next_row (CustomCsvReader_default (StringIO [LF])) = (Inr [[]], CustomCsvReader_default [])"
  using empty_row_round_trip_fails [of "CHR 0x22" "CHR '',''" "\<lambda>s. s" "[]"]
  by (simp add: CustomCsvWriter_default_def CustomCsvReader_default_def LF_def writerow_def
      CustomCsvWriter_init_def)

text \<open>
  Claim C10. The reader's lookahead for LF after CR looks at the buffer only. When a
  chunk ends with CR and the next chunk starts with LF, the row ends at the CR, the LF
  stays in the source, and the next call returns a row of one empty field for it. The
  same characters \<open>a\<close> CR LF \<open>b\<close> LF are read as two rows from one chunk and as
  three rows when the chunk boundary falls between CR and LF.
\<close>

theorem crlf_lookahead_is_buffer_only:
  assumes "buffer self = [CR]" and "fileobj self = (LF # chunk) # f" and "\<not> eof self"
    and "quotechar self \<noteq> CR" and "delimiter self \<noteq> CR"
    and "quotechar self \<noteq> LF" and "delimiter self \<noteq> LF"
  shows "loop self row cf False = (Inr (row @ [cf]), self\<lparr>buffer := []\<rparr>)
    \<and> next_row (self\<lparr>buffer := []\<rparr>) = (Inr [[]], self\<lparr>buffer := chunk, fileobj := f\<rparr>)
    \<and> read (CustomCsvReader_default [''a'' @ [CR], [LF] @ ''b'' @ [LF]])
        = (Inr [[''a''], [[]], [''b'']], CustomCsvReader_default [] \<lparr>eof := True\<rparr>)
    \<and> read (CustomCsvReader_default [''a'' @ [CR, LF] @ ''b'' @ [LF]])
        = (Inr [[''a''], [''b'']], CustomCsvReader_default [] \<lparr>eof := True\<rparr>)"
proof (intro conjI)
  from assms
  show "loop self row cf False = (Inr (row @ [cf]), self\<lparr>buffer := []\<rparr>)"
    by (simp add: loop.simps loop_body_def consume_def)
  from assms
  show "next_row (self\<lparr>buffer := []\<rparr>) = (Inr [[]], self\<lparr>buffer := chunk, fileobj := f\<rparr>)"
    by (simp add: next_row_def loop.simps loop_body_def consume_def Let_def)
  show "read (CustomCsvReader_default [''a'' @ [CR], [LF] @ ''b'' @ [LF]])
        = (Inr [[''a''], [[]], [''b'']], CustomCsvReader_default [] \<lparr>eof := True\<rparr>)"
    by (simp add: run_reader)
  show "read (CustomCsvReader_default [''a'' @ [CR, LF] @ ''b'' @ [LF]])
        = (Inr [[''a''], [''b'']], CustomCsvReader_default [] \<lparr>eof := True\<rparr>)"
    by (simp add: run_reader)
qed

theorem crlf_lookahead_is_buffer_only_witness:
  "loop (CustomCsvReader_default [[LF] @ ''b'' @ [LF]] \<lparr>buffer := [CR]\<rparr>) [] ''a'' False
     = (Inr [''a''], CustomCsvReader_default [[LF] @ ''b'' @ [LF]])
   \<and> next_row (CustomCsvReader_default [[LF] @ ''b'' @ [LF]])
     = (Inr [[]], CustomCsvReader_default [] \<lparr>buffer := ''b'' @ [LF]\<rparr>)"
  using crlf_lookahead_is_buffer_only
    [of "CustomCsvReader_default [[LF] @ ''b'' @ [LF]] \<lparr>buffer := [CR]\<rparr>" "''b'' @ [LF]" "[]"
        "[]" "''a''"]
  by (simp add: CustomCsvReader_default_def CustomCsvReader_init_def LF_def CR_def)

section \<open>Errors and the end of input\<close>

lemma loop_never_IndexError:
  "fst (loop self row cf q) \<noteq> Inl IndexError"
proof (induction self row cf q rule: loop.induct)
  case (1 self row cf q)
  show ?case
  proof (cases "loop_body self row cf q")
    case (Leave res s)
    then have "res \<noteq> Inl IndexError"
      by (cases "fileobj_read (fileobj self)")
         (auto simp: loop_body_def consume_def Let_def split: if_splits list.splits)
    with Leave show ?thesis
      by (simp add: loop.simps)
  next
    case (Again s row' cf' q')
    from "1.IH" [OF Again] Again show ?thesis
      by (simp add: loop.simps)
  qed
qed

lemma loop_StopIteration:
  "loop self row cf q = (Inl StopIteration, self') \<Longrightarrow> buffer self' = [] \<and> eof self'"
proof (induction self row cf q rule: loop.induct)
  case (1 self row cf q)
  show ?case
  proof (cases "loop_body self row cf q")
    case (Leave res s)
    with "1.prems" have "loop_body self row cf q = Leave (Inl StopIteration) self'"
      by (simp add: loop.simps)
    then show ?thesis
      by (cases "fileobj_read (fileobj self)")
         (auto simp: loop_body_def consume_def Let_def split: if_splits list.splits)
  next
    case (Again s row' cf' q')
    with "1.prems" have "loop s row' cf' q' = (Inl StopIteration, self')"
      by (simp add: loop.simps)
    from "1.IH" [OF Again this] show ?thesis .
  qed
qed

lemma loop_body_StopIteration:
  assumes "loop_body self row cf q = Leave (Inl StopIteration) self'"
  shows "buffer self = [] \<and> fst (fileobj_read (fileobj self)) = [] \<and> cf = [] \<and> \<not> q \<and> row = []
    \<and> self' = self\<lparr>fileobj := snd (fileobj_read (fileobj self)), eof := True\<rparr>"
  using assms
  by (cases "fileobj_read (fileobj self)")
     (auto simp: loop_body_def consume_def Let_def split: if_splits list.splits)

lemma loop_unterminated_quote:
  assumes "[] \<notin> set (fileobj self)"
    and "quotechar self \<notin> set (buffer self)"
    and "quotechar self \<notin> set (concat (fileobj self))"
  shows "loop self row cf True =
           (Inr (row @ [cf @ buffer self @ concat (fileobj self)]),
            self\<lparr>fileobj := [], buffer := [], eof := True\<rparr>)"
  using assms
proof (induction self row cf "True" rule: loop.induct)
  case (1 self row cf)
  show ?case
  proof (cases "buffer self")
    case (Cons c rest)
    with "1.prems" have b: "loop_body self row cf True = Again (self\<lparr>buffer := rest\<rparr>) row (cf @ [c]) True"
      by (auto simp: loop_body_def consume_def Let_def)
    from "1.hyps" [OF b] "1.prems" Cons
    have "loop (self\<lparr>buffer := rest\<rparr>) row (cf @ [c]) True =
           (Inr (row @ [cf @ buffer self @ concat (fileobj self)]),
            self\<lparr>fileobj := [], buffer := [], eof := True\<rparr>)"
      by simp
    with b show ?thesis
      by (simp add: loop.simps)
  next
    case Nil
    show ?thesis
    proof (cases "fileobj self")
      case Nil': Nil
      with Nil have "loop_body self row cf True =
          Leave (Inr (row @ [cf])) (self\<lparr>fileobj := [], eof := True\<rparr>)"
        by (simp add: loop_body_def)
      moreover from Nil have "self\<lparr>fileobj := [], eof := True\<rparr> = self\<lparr>fileobj := [], buffer := [], eof := True\<rparr>"
        by (cases self) simp
      ultimately show ?thesis using Nil Nil'
        by (simp add: loop.simps)
    next
      case (Cons chunk f)
      with "1.prems" obtain c rest where ch: "chunk = c # rest"
        by (cases chunk) auto
      with Nil Cons "1.prems"
      have b: "loop_body self row cf True = Again (self\<lparr>fileobj := f, buffer := rest\<rparr>) row (cf @ [c]) True"
        by (auto simp: loop_body_def consume_def Let_def)
      from "1.hyps" [OF b] "1.prems" Cons ch Nil
      have "loop (self\<lparr>fileobj := f, buffer := rest\<rparr>) row (cf @ [c]) True =
           (Inr (row @ [cf @ buffer self @ concat (fileobj self)]),
            self\<lparr>fileobj := [], buffer := [], eof := True\<rparr>)"
        by simp
      with b show ?thesis
        by (simp add: loop.simps)
    qed
  qed
qed

lemma read_never_IndexError:
  "fst (read self) \<noteq> Inl IndexError"
proof (induction self rule: read.induct)
  case (1 self)
  obtain res s where n: "next_row self = (res, s)"
    by (cases "next_row self")
  have ne: "res \<noteq> Inl IndexError"
    using n loop_never_IndexError [of self "[]" "[]" False]
    by (auto simp: next_row_def split: if_splits)
  show ?case
  proof (cases res)
    case (Inl e)
    with ne n show ?thesis
      by (cases e) simp_all
  next
    case (Inr row)
    from "1.IH" [OF n [symmetric] Inr] n Inr show ?thesis
      by (cases "read s") (auto split: sum.splits)
  qed
qed

text \<open>
  Claim C7. Whatever the reader's state and whatever the source delivers, a call of
  \<^verbatim>\<open>__next__\<close> (and of \<^verbatim>\<open>read\<close>) ends, and it never raises the
  \<^verbatim>\<open>IndexError\<close> of indexing an empty buffer: the only exception is
  \<^verbatim>\<open>StopIteration\<close>. That exception leaves the reader with an empty buffer and
  the end-of-stream flag set, and the loop raises it only in a pass that finds the
  buffer empty, the source exhausted, the field accumulator empty, the row empty and the
  reader outside a quoted region. A quoted field that is never closed takes all the
  remaining input, over all chunks, as one field.
\<close>

theorem reader_only_signals_end_of_input:
  "fst (next_row self) \<noteq> Inl IndexError
   \<and> fst (read self) \<noteq> Inl IndexError
   \<and> (next_row self = (Inl StopIteration, self') \<longrightarrow> buffer self' = [] \<and> eof self')
   \<and> (loop_body self row cf q = Leave (Inl StopIteration) self' \<longrightarrow>
        buffer self = [] \<and> fst (fileobj_read (fileobj self)) = [] \<and> cf = [] \<and> \<not> q \<and> row = [])
   \<and> ([] \<notin> set chunks \<and> qc \<notin> set field \<and> qc \<notin> set (concat chunks) \<longrightarrow>
        next_row (CustomCsvReader_init ((qc # field) # chunks) d qc)
          = (Inr [field @ concat chunks], CustomCsvReader_init [] d qc \<lparr>eof := True\<rparr>))"
proof (intro conjI impI)
  show "fst (next_row self) \<noteq> Inl IndexError"
    using loop_never_IndexError [of self "[]" "[]" False]
    by (simp add: next_row_def)
  show "fst (read self) \<noteq> Inl IndexError"
    by (rule read_never_IndexError)
next
  assume "next_row self = (Inl StopIteration, self')"
  then show "buffer self' = []" and "eof self'"
    by (auto simp: next_row_def split: if_splits dest: loop_StopIteration)
next
  assume "loop_body self row cf q = Leave (Inl StopIteration) self'"
  from loop_body_StopIteration [OF this]
  show "buffer self = []" and "fst (fileobj_read (fileobj self)) = []" and "cf = []"
    and "\<not> q" and "row = []"
    by simp_all
next
  let ?r = "CustomCsvReader_init ((qc # field) # chunks) d qc"
  assume a: "[] \<notin> set chunks \<and> qc \<notin> set field \<and> qc \<notin> set (concat chunks)"
  have "loop_body ?r [] [] False = Again (?r\<lparr>fileobj := chunks, buffer := field\<rparr>) [] [] True"
    by (simp add: loop_body_def consume_def CustomCsvReader_init_def)
  then have "loop ?r [] [] False = loop (?r\<lparr>fileobj := chunks, buffer := field\<rparr>) [] [] True"
    by (rule loop_Again)
  also from a have "\<dots> = (Inr [field @ concat chunks], CustomCsvReader_init [] d qc \<lparr>eof := True\<rparr>)"
    by (subst loop_unterminated_quote) (simp_all add: CustomCsvReader_init_def)
  finally show "next_row ?r = (Inr [field @ concat chunks], CustomCsvReader_init [] d qc \<lparr>eof := True\<rparr>)"
    by (simp add: next_row_def CustomCsvReader_init_def)
qed

theorem reader_only_signals_end_of_input_witness:
  \<open>next_row (CustomCsvReader_default []) = (Inl StopIteration, CustomCsvReader_default [] \<lparr>eof := True\<rparr>)
   \<and> loop_body (CustomCsvReader_default []) [] [] False
       = Leave (Inl StopIteration) (CustomCsvReader_default [] \<lparr>eof := True\<rparr>)
   \<and> buffer (CustomCsvReader_default [] \<lparr>eof := True\<rparr>) = []
   \<and> eof (CustomCsvReader_default [] \<lparr>eof := True\<rparr>)
   \<and> next_row (CustomCsvReader_init [''"a,b'', [LF] @ ''c''] (CHR '','') (CHR 0x22))
       = (Inr [''a,b'' @ [LF] @ ''c''], CustomCsvReader_init [] (CHR '','') (CHR 0x22) \<lparr>eof := True\<rparr>)\<close>
  using reader_only_signals_end_of_input
    [of "CustomCsvReader_default []" "CustomCsvReader_default [] \<lparr>eof := True\<rparr>" "[]" "[]" False
        "[[LF] @ ''c'']" "CHR 0x22" "''a,b''" "CHR '',''"]
  by (simp add: run_reader)

section \<open>Writing a row and reading it back\<close>

subsection \<open>The round trip\<close>

text \<open>
  Claim C1. Writing a non-empty row of strings with \<^verbatim>\<open>writerow\<close> and reading
  the text back with \<^verbatim>\<open>__next__\<close> should give the same fields, also when they
  hold quote characters. The code does not: the field of 4094 letters \<open>a\<close> followed
  by one quote character is written as a line of 4099 characters whose doubled quote
  lies on characters 4096 and 4097. \<^verbatim>\<open>StringIO.read(4096)\<close> ends the first chunk
  between the two, the reader takes the first quote of the pair for a closing quote
  because its buffer is empty, and the field read back has lost its quote character.
\<close>

theorem round_trip_breaks_at_chunk_boundary:
  "outfile (writerow (\<lambda>field. field) (CustomCsvWriter_default [])
      [replicate 4094 (CHR ''a'') @ [CHR 0x22]])
     = CHR 0x22 # replicate 4094 (CHR ''a'') @ [CHR 0x22, CHR 0x22, CHR 0x22, LF]
   \<and> StringIO (CHR 0x22 # replicate 4094 (CHR ''a'') @ [CHR 0x22, CHR 0x22, CHR 0x22, LF])
     = [CHR 0x22 # replicate 4094 (CHR ''a'') @ [CHR 0x22], [CHR 0x22, CHR 0x22, LF]]
   \<and> next_row (CustomCsvReader_default (StringIO (outfile
        (writerow (\<lambda>field. field) (CustomCsvWriter_default [])
          [replicate 4094 (CHR ''a'') @ [CHR 0x22]]))))
     = (Inr [replicate 4094 (CHR ''a'')], CustomCsvReader_default [])
   \<and> [replicate 4094 (CHR ''a'')] \<noteq> [replicate 4094 (CHR ''a'') @ [CHR 0x22]]"
proof -
  let ?q = "CHR 0x22 :: char"
  let ?a = "CHR ''a'' :: char"
  have w: "outfile (writerow (\<lambda>field. field) (CustomCsvWriter_default []) [replicate 4094 ?a @ [?q]])
      = ?q # replicate 4094 ?a @ [?q, ?q, ?q, LF]"
    by (simp add: writerow_def escape_field_def needs_quoting_def CustomCsvWriter_default_def
        CustomCsvWriter_init_def replace_append replace_replicate)
  have "StringIO ((?q # replicate 4094 ?a @ [?q]) @ [?q, ?q, LF])
      = [?q # replicate 4094 ?a @ [?q], [?q, ?q, LF]]"
    unfolding StringIO_def by (rule chunks_of_two) simp_all
  then have s: "StringIO (?q # replicate 4094 ?a @ [?q, ?q, ?q, LF])
      = [?q # replicate 4094 ?a @ [?q], [?q, ?q, LF]]"
    by simp
  have n: "next_row (CustomCsvReader_default [?q # replicate 4094 ?a @ [?q], [?q, ?q, LF]])
      = (Inr [replicate 4094 ?a], CustomCsvReader_default [])"
    by (rule split_pair_misread) simp
  show ?thesis
    by (simp only: w s n) simp
qed

theorem round_trip_breaks_at_chunk_boundary_witness:
  "fst (next_row (CustomCsvReader_default (StringIO (outfile
        (writerow (\<lambda>field. field) (CustomCsvWriter_default [])
          [replicate 4094 (CHR ''a'') @ [CHR 0x22]])))))
     \<noteq> Inr [replicate 4094 (CHR ''a'') @ [CHR 0x22]]"
  using round_trip_breaks_at_chunk_boundary [THEN conjunct2, THEN conjunct2, THEN conjunct1]
  by simp

text \<open>
  Away from such a boundary the round trip holds. For a delimiter and a quote character
  that differ from each other and from LF, a non-empty row written by
  \<^verbatim>\<open>writerow\<close> is read back unchanged by the first call of \<^verbatim>\<open>__next__\<close>,
  and the reader is left in front of the rest of the input, whenever the source
  delivers no empty chunk and no chunk other than the last ends with the quote
  character; in particular for a \<^verbatim>\<open>StringIO\<close> over a line of at most 4096
  characters.
\<close>

theorem round_trip_unless_pair_split:
  assumes "d \<noteq> q" and "LF \<noteq> q" and "LF \<noteq> d"
    and "row \<noteq> []"
    and "line = outfile (writerow (\<lambda>field. field) (CustomCsvWriter_init [] d q) row)"
  shows "([] \<notin> set chunks \<and> (\<forall>chunk \<in> set (butlast chunks). last chunk \<noteq> q)
          \<and> concat chunks = line @ rest \<longrightarrow>
            fst (next_row (CustomCsvReader_init chunks d q)) = Inr row
            \<and> stream (snd (next_row (CustomCsvReader_init chunks d q))) = rest)
    \<and> ((\<forall>chunk \<in> set (butlast (StringIO (line @ rest))). last chunk \<noteq> q) \<longrightarrow>
            fst (next_row (CustomCsvReader_init (StringIO (line @ rest)) d q)) = Inr row
            \<and> stream (snd (next_row (CustomCsvReader_init (StringIO (line @ rest)) d q))) = rest)
    \<and> (length line \<le> 4096 \<longrightarrow>
            next_row (CustomCsvReader_init (StringIO line) d q)
              = (Inr row, CustomCsvReader_init [] d q))"
proof -
  let ?w = "CustomCsvWriter_init [] d q"
  let ?text = "join [d] (map (escape_field ?w) row)"
  from assms(5) have line: "line = ?text @ [LF]"
    by (simp add: writerow_def CustomCsvWriter_init_def)
  have general: "next_row (CustomCsvReader_init chunks d q) =
      (Inr row, pops (Suc (length ?text)) (CustomCsvReader_init chunks d q))
      \<and> stream (pops (Suc (length ?text)) (CustomCsvReader_init chunks d q)) = rest
      \<and> unsplit (pops (Suc (length ?text)) (CustomCsvReader_init chunks d q))"
    if ne: "[] \<notin> set chunks" and ends: "\<forall>chunk \<in> set (butlast chunks). last chunk \<noteq> q"
      and cat: "concat chunks = line @ rest" for chunks rest
  proof -
    let ?r = "CustomCsvReader_init chunks d q"
    from ne ends have u: "unsplit ?r"
      by (rule unsplit_init)
    from cat line have s: "stream ?r = ?text @ LF # rest"
      by (simp add: stream_def CustomCsvReader_init_def)
    have "next_row ?r =
        (Inr row, pops (Suc (length (join [delimiter ?w] (map (escape_field ?w) row)))) ?r)"
      using assms(1-4) s u
      by (intro next_row_reads_written_row)
         (simp_all add: CustomCsvReader_init_def CustomCsvWriter_init_def)
    moreover have "stream (pops (length (?text @ [LF])) ?r) = rest"
      using u s by (intro stream_pops) simp_all
    moreover from u have "unsplit (pops (Suc (length ?text)) ?r)"
      by (rule unsplit_pops)
    ultimately show ?thesis
      by (simp add: CustomCsvWriter_init_def)
  qed
  have sio: "[] \<notin> set (StringIO t)" "concat (StringIO t) = t" for t
    by (simp_all add: StringIO_def chunks_of_nonempty concat_chunks_of)
  show ?thesis
  proof (intro conjI impI)
    assume a: "[] \<notin> set chunks \<and> (\<forall>chunk \<in> set (butlast chunks). last chunk \<noteq> q)
          \<and> concat chunks = line @ rest"
    with general [of chunks rest]
    show "fst (next_row (CustomCsvReader_init chunks d q)) = Inr row"
      and "stream (snd (next_row (CustomCsvReader_init chunks d q))) = rest"
      by simp_all
  next
    assume a: "\<forall>chunk \<in> set (butlast (StringIO (line @ rest))). last chunk \<noteq> q"
    with general [of "StringIO (line @ rest)" rest] sio
    show "fst (next_row (CustomCsvReader_init (StringIO (line @ rest)) d q)) = Inr row"
      and "stream (snd (next_row (CustomCsvReader_init (StringIO (line @ rest)) d q))) = rest"
      by simp_all
  next
    assume a: "length line \<le> 4096"
    define r' where "r' = pops (Suc (length ?text)) (CustomCsvReader_init [line] d q)"
    from line a have single: "StringIO line = [line]"
      by (simp add: StringIO_def chunks_of_single)
    from line have g: "next_row (CustomCsvReader_init [line] d q) = (Inr row, r')"
      "stream r' = []" "unsplit r'"
      using general [of "[line]" "[]"] by (simp_all add: r'_def)
    from g(3) have "[] \<notin> set (fileobj r')"
      by (rule unsplit_chunks)
    from stream_empty [OF this g(2)] have e: "buffer r' = []" "fileobj r' = []"
      by simp_all
    have c: "delimiter r' = d" "quotechar r' = q" "\<not> eof r'"
      by (simp_all add: r'_def CustomCsvReader_init_def)
    have "r' = CustomCsvReader_init [] d q"
      by (rule CustomCsvReader.equality) (simp_all add: e c CustomCsvReader_init_def)
    with g(1) single show "next_row (CustomCsvReader_init (StringIO line) d q)
              = (Inr row, CustomCsvReader_init [] d q)"
      by simp
  qed
qed

theorem round_trip_unless_pair_split_witness:
  \<open>fst (next_row (CustomCsvReader_default [''"a,b","q'', ''""q",'' @ [LF] @ ''z'']))
     = Inr [''a,b'', ''q"q'', '''']
   \<and> stream (snd (next_row (CustomCsvReader_default [''"a,b","q'', ''""q",'' @ [LF] @ ''z''])))
     = ''z''
   \<and> next_row (CustomCsvReader_default (StringIO (''"a,b","q""q",'' @ [LF])))
     = (Inr [''a,b'', ''q"q'', ''''], CustomCsvReader_default [])\<close>
  using round_trip_unless_pair_split
    [of "CHR '',''" "CHR 0x22"
        "[''a,b'', [CHR ''q'', CHR 0x22, CHR ''q''], '''']"
        "[CHR 0x22, CHR ''a'', CHR '','', CHR ''b'', CHR 0x22, CHR '','', CHR 0x22, CHR ''q'',
          CHR 0x22, CHR 0x22, CHR ''q'', CHR 0x22, CHR '','', LF]"
        "[[CHR 0x22, CHR ''a'', CHR '','', CHR ''b'', CHR 0x22, CHR '','', CHR 0x22, CHR ''q''],
          [CHR 0x22, CHR 0x22, CHR ''q'', CHR 0x22, CHR '','', LF, CHR ''z'']]"
        "''z''"]
  by (simp add: CustomCsvReader_default_def writerow_def escape_field_def needs_quoting_def
      CustomCsvWriter_init_def LF_def CR_def)

end
